theory Spec2Isabelle
  imports Main "HOL-Library.Word" "HOL-Library.Multiset"
begin

unbundle bit_operations_syntax

section \<open>Data model of \<^verbatim>\<open>model_count.c\<close>\<close>

text \<open>
  Bytes are \<^typ>\<open>char\<close> (eight bits). A \<^verbatim>\<open>char *\<close> buffer is a \<^typ>\<open>char list\<close>; the
  C library reads such a buffer as a string up to, and without, its first NUL byte,
  which is what \<open>cstr\<close> computes. The input \<^verbatim>\<open>FILE *\<close> is the list of bytes not yet
  read: \<^verbatim>\<open>fgetc\<close> takes the head (\<^verbatim>\<open>EOF\<close> on the empty list, modelled as \<open>None\<close>),
  \<^verbatim>\<open>ungetc\<close> puts one byte back in front.

  \<^verbatim>\<open>uint64_t\<close> values (the hash, an entry's count, the values-seen counter) are
  \<^typ>\<open>64 word\<close>, so that \<^verbatim>\<open>++\<close> and \<^verbatim>\<open>*\<close> wrap as they do in C. The \<^verbatim>\<open>size_t\<close> fields
  \<^verbatim>\<open>size\<close> and \<^verbatim>\<open>bucket_count\<close> are \<^typ>\<open>nat\<close>: every entry and every bucket slot
  occupies allocated memory, \<^verbatim>\<open>xmalloc\<close> and \<^verbatim>\<open>calloc\<close> end the process when an
  allocation fails, and so neither number comes near \<open>2 ^ 62\<close> in a run that goes on.
  The nesting depth of \<^verbatim>\<open>consume_json_value\<close> is a C \<^verbatim>\<open>int\<close>, modelled by \<^typ>\<open>int\<close>;
  signed overflow (more than \<open>2 ^ 31 - 1\<close> open brackets) is undefined in C and outside
  the model. Allocation failure, and the progress report of \<^verbatim>\<open>process_file\<close> (it writes
  to \<^verbatim>\<open>stderr\<close> and reads the clock, and touches neither stream, table nor counter),
  are not modelled.
\<close>

record Entry =
  key :: "char list"
  count_e :: "64 word"

text \<open>A chain (the \<^verbatim>\<open>next\<close> pointers from a bucket head) is the list of its entries.\<close>

record HashTable =
  buckets :: "Entry list list"
  bucket_count :: nat
  size_tbl :: nat

definition KEY_MODEL :: "char list" where
  "KEY_MODEL = ''model''"

definition INITIAL_BUCKETS :: nat where
  "INITIAL_BUCKETS = 4096"

definition LOAD_FACTOR_NUM :: nat where
  "LOAD_FACTOR_NUM = 3"

definition LOAD_FACTOR_DEN :: nat where
  "LOAD_FACTOR_DEN = 4"

definition cstr :: "char list \<Rightarrow> char list" where
  "cstr s = takeWhile (\<lambda>c. c \<noteq> CHR 0x00) s"

text \<open>\<^verbatim>\<open>strcmp(a, b) == 0\<close>\<close>

definition strcmp_eq :: "char list \<Rightarrow> char list \<Rightarrow> bool" where
  "strcmp_eq a b = (cstr a = cstr b)"

definition xstrdup :: "char list \<Rightarrow> char list" where
  "xstrdup s = cstr s"

definition hash_str :: "char list \<Rightarrow> 64 word" where
  "hash_str s =
     fold (\<lambda>c h. (h XOR of_char c) * 1099511628211) (cstr s) 1469598103934665603"

section \<open>The hash table\<close>

definition table_init :: "nat \<Rightarrow> HashTable" where
  "table_init n = \<lparr>buckets = replicate n [], bucket_count = n, size_tbl = 0\<rparr>"

text \<open>The body of the inner \<^verbatim>\<open>while (e)\<close> of \<^verbatim>\<open>table_rehash\<close>: push \<open>e\<close> on its new chain.\<close>

definition relink :: "nat \<Rightarrow> Entry \<Rightarrow> Entry list list \<Rightarrow> Entry list list" where
  "relink new_count e new_buckets =
     (let h = hash_str (key e);
          idx = unat h mod new_count
      in new_buckets[idx := e # new_buckets ! idx])"

definition table_rehash :: "HashTable \<Rightarrow> HashTable" where
  "table_rehash t =
     (let new_count = bucket_count t * 2;
          new_buckets = fold (\<lambda>i nb. fold (relink new_count) (buckets t ! i) nb)
                          [0..<bucket_count t] (replicate new_count [])
      in t\<lparr>buckets := new_buckets, bucket_count := new_count\<rparr>)"

text \<open>
  The chain walk of \<^verbatim>\<open>table_inc\<close>: \<open>Some\<close> of the chain with the matching entry's count
  incremented, or \<open>None\<close> when the walk reaches the end of the chain.
\<close>

fun chain_inc :: "Entry list \<Rightarrow> char list \<Rightarrow> Entry list option" where
  "chain_inc [] k = None"
| "chain_inc (e # es) k =
     (if strcmp_eq (key e) k then Some (e\<lparr>count_e := count_e e + 1\<rparr> # es)
      else map_option ((#) e) (chain_inc es k))"

definition table_inc :: "HashTable \<Rightarrow> char list \<Rightarrow> HashTable" where
  "table_inc t0 k =
     (let t = (if size_tbl t0 * LOAD_FACTOR_DEN \<ge> bucket_count t0 * LOAD_FACTOR_NUM
               then table_rehash t0 else t0);
          h = hash_str k;
          idx = unat h mod bucket_count t
      in case chain_inc (buckets t ! idx) k of
           Some ch \<Rightarrow> t\<lparr>buckets := (buckets t)[idx := ch]\<rparr>
         | None \<Rightarrow>
             t\<lparr>buckets := (buckets t)[idx := \<lparr>key = xstrdup k, count_e = 1\<rparr> # buckets t ! idx],
               size_tbl := size_tbl t + 1\<rparr>)"

text \<open>\<^verbatim>\<open>get_count\<close> of \<^verbatim>\<open>tests/test_model_count.c\<close>: the stored count, 0 when absent.\<close>

fun chain_get :: "Entry list \<Rightarrow> char list \<Rightarrow> 64 word" where
  "chain_get [] k = 0"
| "chain_get (e # es) k = (if strcmp_eq (key e) k then count_e e else chain_get es k)"

definition get_count :: "HashTable \<Rightarrow> char list \<Rightarrow> 64 word" where
  "get_count t model =
     (let h = hash_str model;
          idx = unat h mod bucket_count t
      in chain_get (buckets t ! idx) model)"

section \<open>The scanner\<close>

definition isspace :: "char \<Rightarrow> bool" where
  "isspace c = (c = CHR 0x20 \<or> c = CHR 0x09 \<or> c = CHR 0x0A \<or> c = CHR 0x0B
                \<or> c = CHR 0x0C \<or> c = CHR 0x0D)"

definition isxdigit :: "char \<Rightarrow> bool" where
  "isxdigit c = (c \<in> set ''0123456789abcdefABCDEF'')"

fun skip_ws :: "char list \<Rightarrow> char option \<times> char list" where
  "skip_ws [] = (None, [])"
| "skip_ws (c # fp) = (if isspace c then skip_ws fp else (Some c, fp))"

text \<open>
  The \<^verbatim>\<open>for (i = 0; i < 4; ++i)\<close> loop of \<^verbatim>\<open>read_json_string\<close>, with the number of
  digits still to read: \<open>False\<close> is its \<^verbatim>\<open>return NULL\<close>.
\<close>

fun read_hex :: "nat \<Rightarrow> char list \<Rightarrow> bool \<times> char list" where
  "read_hex 0 fp = (True, fp)"
| "read_hex (Suc n) [] = (False, [])"
| "read_hex (Suc n) (h # fp) = (if isxdigit h then read_hex n fp else (False, fp))"

text \<open>The \<^verbatim>\<open>switch (esc)\<close> of \<^verbatim>\<open>read_json_string\<close>.\<close>

definition unescape :: "char \<Rightarrow> char" where
  "unescape esc =
     (if esc = CHR 0x22 then CHR 0x22
      else if esc = CHR 0x5C then CHR 0x5C
      else if esc = CHR ''/'' then CHR ''/''
      else if esc = CHR ''b'' then CHR 0x08
      else if esc = CHR ''f'' then CHR 0x0C
      else if esc = CHR ''n'' then CHR 0x0A
      else if esc = CHR ''r'' then CHR 0x0D
      else if esc = CHR ''t'' then CHR 0x09
      else esc)"

lemma read_hex_length: "length (snd (read_hex n fp)) \<le> length fp"
  by (induction n fp rule: read_hex.induct) auto

text \<open>
  The \<^verbatim>\<open>for (;;)\<close> loop of \<^verbatim>\<open>read_json_string\<close>; \<open>buf\<close> holds the \<open>len\<close> bytes stored
  so far. \<open>None\<close> is \<^verbatim>\<open>NULL\<close>.
\<close>

function read_json_string_loop :: "char list \<Rightarrow> char list \<Rightarrow> char list option \<times> char list" where
  "read_json_string_loop buf [] = (None, [])"
| "read_json_string_loop buf (c # fp) =
     (if c = CHR 0x22 then (Some buf, fp)
      else if c = CHR 0x5C then
        (case fp of
           [] \<Rightarrow> (None, [])
         | esc # fp' \<Rightarrow>
             if esc = CHR ''u'' then
               (case read_hex 4 fp' of
                  (False, fp'') \<Rightarrow> (None, fp'')
                | (True, fp'') \<Rightarrow> read_json_string_loop (buf @ [CHR ''?'']) fp'')
             else read_json_string_loop (buf @ [unescape esc]) fp')
      else read_json_string_loop (buf @ [c]) fp)"
  by pat_completeness auto
termination
proof (relation "measure (\<lambda>(buf, fp). length fp)")
  fix buf :: "char list" and c fp x21 x22 x y x2
  assume "(x, y) = read_hex 4 x22" and "fp = x21 # x22"
  then have "length y \<le> length x22"
    using read_hex_length [of 4 x22] by (metis snd_conv)
  then show "((buf @ [CHR ''?''], y), buf, c # fp) \<in> measure (\<lambda>(buf, fp). length fp)"
    using \<open>fp = x21 # x22\<close> by simp
qed auto

definition read_json_string :: "char list \<Rightarrow> char list option \<times> char list" where
  "read_json_string fp = read_json_string_loop [] fp"

text \<open>
  The container branch of \<^verbatim>\<open>consume_json_value\<close>: the loop \<^verbatim>\<open>while (depth > 0)\<close> with its
  three local variables. \<open>False\<close> is \<^verbatim>\<open>return 0\<close> at \<^verbatim>\<open>EOF\<close>.
\<close>

fun container_loop :: "int \<Rightarrow> bool \<Rightarrow> bool \<Rightarrow> char list \<Rightarrow> bool \<times> char list" where
  "container_loop depth in_string esc [] = (if depth > 0 then (False, []) else (True, []))"
| "container_loop depth in_string esc (c # fp) =
     (if depth > 0 then
        (if in_string then
           (if esc then container_loop depth in_string False fp
            else if c = CHR 0x5C then container_loop depth in_string True fp
            else if c = CHR 0x22 then container_loop depth False esc fp
            else container_loop depth in_string esc fp)
         else if c = CHR 0x22 then container_loop depth True esc fp
         else if c = CHR ''{'' \<or> c = CHR ''['' then container_loop (depth + 1) in_string esc fp
         else if c = CHR ''}'' \<or> c = CHR '']'' then container_loop (depth - 1) in_string esc fp
         else container_loop depth in_string esc fp)
      else (True, c # fp))"

text \<open>
  The last branch of \<^verbatim>\<open>consume_json_value\<close>: the loop that reads on while the current
  byte \<open>c\<close> is no delimiter. It returns the byte the loop stopped at (\<open>None\<close> for
  \<^verbatim>\<open>EOF\<close>) and the stream after it.
\<close>

definition is_delim :: "char \<Rightarrow> bool" where
  "is_delim c = (c = CHR '','' \<or> c = CHR ''}'' \<or> c = CHR '']'' \<or> isspace c)"

fun scalar_loop :: "char \<Rightarrow> char list \<Rightarrow> char option \<times> char list" where
  "scalar_loop c [] = (if is_delim c then (Some c, []) else (None, []))"
| "scalar_loop c (c' # fp) = (if is_delim c then (Some c, c' # fp) else scalar_loop c' fp)"

definition consume_json_value :: "char list \<Rightarrow> char \<Rightarrow> bool \<times> char list" where
  "consume_json_value fp first =
     (if first = CHR 0x22 then
        (case read_json_string fp of
           (None, fp') \<Rightarrow> (False, fp')
         | (Some s, fp') \<Rightarrow> (True, fp'))
      else if first = CHR ''{'' \<or> first = CHR ''['' then container_loop 1 False False fp
      else
        (case scalar_loop first fp of
           (Some c, fp') \<Rightarrow>
             if c = CHR '','' \<or> c = CHR ''}'' \<or> c = CHR '']'' then (True, c # fp')
             else (True, fp')
         | (None, fp') \<Rightarrow> (True, fp')))"

lemma skip_ws_length: "length (snd (skip_ws fp)) \<le> length fp"
  by (induction fp) auto

lemma skip_ws_Some_length: "skip_ws fp = (Some c, fp') \<Longrightarrow> length fp' < length fp"
  by (induction fp) (auto split: if_splits)


lemma read_json_string_loop_length:
  "length (snd (read_json_string_loop buf fp)) \<le> length fp"
proof (induction buf fp rule: read_json_string_loop.induct)
  case (1 buf)
  then show ?case by simp
next
  case (2 buf c fp)
  show ?case
  proof (cases fp)
    case Nil
    then show ?thesis by simp
  next
    case (Cons esc fp')
    obtain ok fp'' where h: "read_hex 4 fp' = (ok, fp'')"
      by (cases "read_hex 4 fp'")
    then have l: "length fp'' \<le> length fp'"
      using read_hex_length [of 4 fp'] by simp
    show ?thesis
    proof (cases "c = CHR 0x5C \<and> esc = CHR ''u'' \<and> ok")
      case True
      then have "length (snd (read_json_string_loop (buf @ [CHR ''?'']) fp'')) \<le> length fp''"
        using 2(1) [OF _ _ Cons _ h [symmetric]] by simp
      with True Cons h l show ?thesis by simp
    next
      case False
      with 2(2,3) Cons h l show ?thesis
        by (auto simp: le_Suc_eq)
    qed
  qed
qed

lemma read_json_string_length: "length (snd (read_json_string fp)) \<le> length fp"
  by (simp add: read_json_string_def read_json_string_loop_length)

lemma container_loop_length: "length (snd (container_loop d i e fp)) \<le> length fp"
  by (induction d i e fp rule: container_loop.induct) (auto simp: le_Suc_eq)

lemma scalar_loop_length:
  "length (snd (scalar_loop c fp)) \<le> length fp"
  by (induction c fp rule: scalar_loop.induct) (auto simp: le_Suc_eq)

lemma consume_json_value_length:
  "length (snd (consume_json_value fp c)) \<le> Suc (length fp)"
proof -
  have a: "length (snd (read_json_string fp)) \<le> length fp"
    by (rule read_json_string_length)
  have b: "length (snd (container_loop 1 False False fp)) \<le> length fp"
    by (rule container_loop_length)
  have c: "length (snd (scalar_loop c fp)) \<le> length fp"
    by (rule scalar_loop_length)
  show ?thesis
    using a b c
    by (auto simp: consume_json_value_def split: prod.splits option.splits)
qed

function process_file :: "char list \<Rightarrow> HashTable \<Rightarrow> 64 word \<Rightarrow> bool \<times> HashTable \<times> 64 word" where
  "process_file [] table models_seen = (True, table, models_seen)"
| "process_file (c # fp) table models_seen =
     (if c \<noteq> CHR 0x22 then process_file fp table models_seen
      else
        (case read_json_string fp of
           (None, fp1) \<Rightarrow> (False, table, models_seen)
         | (Some k, fp1) \<Rightarrow>
             (case skip_ws fp1 of
                (c1, fp2) \<Rightarrow>
                  if c1 \<noteq> Some (CHR '':'') then process_file fp2 table models_seen
                  else
                    (case skip_ws fp2 of
                       (None, fp3) \<Rightarrow> (True, table, models_seen)
                     | (Some c2, fp3) \<Rightarrow>
                         if strcmp_eq k KEY_MODEL \<and> c2 = CHR 0x22 then
                           (case read_json_string fp3 of
                              (None, fp4) \<Rightarrow> (False, table, models_seen)
                            | (Some val, fp4) \<Rightarrow>
                                process_file fp4 (table_inc table val) (models_seen + 1))
                         else
                           (case consume_json_value fp3 c2 of
                              (False, fp4) \<Rightarrow> (False, table, models_seen)
                            | (True, fp4) \<Rightarrow> process_file fp4 table models_seen)))))"
  by pat_completeness auto
termination
  apply (relation "measure (\<lambda>(fp, table, models_seen). length fp)")
  apply simp
  apply simp
  subgoal for c fp table ms x fp1 k c1 fp2
   using read_json_string_length [of fp] skip_ws_length [of fp1]
   apply simp
   apply (metis snd_conv le_trans less_Suc_eq_le)
  done
  subgoal for c fp table ms x fp1 k c1 fp2 x' fp3 c2 y fp4 val
   using read_json_string_length [of fp] skip_ws_length [of fp1]
      skip_ws_length [of fp2] read_json_string_length [of fp3]
   apply simp
   apply (metis snd_conv le_trans less_Suc_eq_le)
   done
  subgoal for c fp table ms x fp1 k c1 fp2 x' fp3 c2 y fp4
    using read_json_string_length [of fp] skip_ws_length [of fp1]
      skip_ws_Some_length [of fp2 c2 fp3] consume_json_value_length [of fp3 c2]
   apply simp
   apply (metis snd_conv le_trans less_Suc_eq_le Suc_leI)
    done
  done

section \<open>The run of the driver\<close>

text \<open>
  \<^verbatim>\<open>main\<close> and the test's \<^verbatim>\<open>expect_counts\<close> both start \<^verbatim>\<open>process_file\<close> on a table of
  \<^verbatim>\<open>INITIAL_BUCKETS\<close> buckets with \<^verbatim>\<open>models_seen = 0\<close>.
\<close>

definition run :: "char list \<Rightarrow> bool \<times> HashTable \<times> 64 word" where
  "run fp = process_file fp (table_init INITIAL_BUCKETS) 0"

definition run_ok :: "char list \<Rightarrow> bool" where
  "run_ok fp = fst (run fp)"

definition run_table :: "char list \<Rightarrow> HashTable" where
  "run_table fp = fst (snd (run fp))"

definition run_seen :: "char list \<Rightarrow> 64 word" where
  "run_seen fp = snd (snd (run fp))"

section \<open>Notions used to state the properties\<close>

text \<open>
  None of the following is code of the program. \<open>entries\<close> lists the nodes of a table
  in the order in which \<^verbatim>\<open>main\<close> walks them (bucket by bucket, each chain from its
  head); \<open>lookup\<close> is the table read as a finite map; \<open>table_inv\<close> is the validity of
  a table, shown below for \<^verbatim>\<open>table_init\<close> and preserved by \<^verbatim>\<open>table_rehash\<close> and
  \<^verbatim>\<open>table_inc\<close>: there is a bucket, the array has \<^verbatim>\<open>bucket_count\<close> slots, each entry
  sits in the chain its hash selects, stored keys are NUL-free and pairwise distinct,
  and \<^verbatim>\<open>size\<close> counts the nodes.
\<close>

definition entries :: "HashTable \<Rightarrow> Entry list" where
  "entries t = concat (buckets t)"

definition bucket_of :: "nat \<Rightarrow> char list \<Rightarrow> nat" where
  "bucket_of n k = unat (hash_str k) mod n"

definition buckets_ok :: "nat \<Rightarrow> Entry list list \<Rightarrow> bool" where
  "buckets_ok n bs = (length bs = n \<and> (\<forall>i<n. \<forall>e\<in>set (bs ! i). bucket_of n (key e) = i))"

definition table_inv :: "HashTable \<Rightarrow> bool" where
  "table_inv t =
     (0 < bucket_count t \<and> buckets_ok (bucket_count t) (buckets t)
      \<and> (\<forall>e\<in>set (entries t). cstr (key e) = key e)
      \<and> distinct (map key (entries t))
      \<and> size_tbl t = length (entries t))"

definition kv :: "Entry \<Rightarrow> char list \<times> 64 word" where
  "kv e = (key e, count_e e)"

definition lookup :: "HashTable \<Rightarrow> char list \<Rightarrow> 64 word option" where
  "lookup t = map_of (map kv (entries t))"

definition sum_counts :: "HashTable \<Rightarrow> 64 word" where
  "sum_counts t = sum_list (map count_e (entries t))"

text \<open>
  The part of \<^verbatim>\<open>table_inc\<close> after the growth check, on its own, so that
  \<open>table_inc\<close> is \<open>insert_step\<close> after an optional \<open>table_rehash\<close> (lemma \<open>table_inc_eq\<close>).
\<close>

definition insert_step :: "HashTable \<Rightarrow> char list \<Rightarrow> HashTable" where
  "insert_step t k =
     (case chain_inc (buckets t ! bucket_of (bucket_count t) k) k of
        Some ch \<Rightarrow> t\<lparr>buckets := (buckets t)[bucket_of (bucket_count t) k := ch]\<rparr>
      | None \<Rightarrow>
          t\<lparr>buckets := (buckets t)[bucket_of (bucket_count t) k :=
                 \<lparr>key = xstrdup k, count_e = 1\<rparr> # buckets t ! bucket_of (bucket_count t) k],
            size_tbl := size_tbl t + 1\<rparr>)"

text \<open>The load bound that \<^verbatim>\<open>table_inc\<close> keeps, with the divisibility that makes it exact.\<close>

definition load_ok :: "HashTable \<Rightarrow> bool" where
  "load_ok t = (0 < bucket_count t \<and> 4 dvd bucket_count t
                \<and> size_tbl t * 4 \<le> bucket_count t * 3)"

text \<open>\<open>n\<close> pairwise different values: the empty string, \<^verbatim>\<open>a\<close>, \<^verbatim>\<open>aa\<close>, ...\<close>

definition a_keys :: "nat \<Rightarrow> char list list" where
  "a_keys n = map (\<lambda>i. replicate i (CHR ''a'')) [0..<n]"

text \<open>
  The values that \<^verbatim>\<open>process_file\<close> hands to \<^verbatim>\<open>table_inc\<close>, in order, and its return
  value: the loop of \<open>process_file\<close> again, with the table and the counter left out
  (lemma \<open>process_file_scan_values\<close> relates the two).
\<close>

function scan_values :: "char list \<Rightarrow> bool \<times> char list list" where
  "scan_values [] = (True, [])"
| "scan_values (c # fp) =
     (if c \<noteq> CHR 0x22 then scan_values fp
      else
        (case read_json_string fp of
           (None, fp1) \<Rightarrow> (False, [])
         | (Some k, fp1) \<Rightarrow>
             (case skip_ws fp1 of
                (c1, fp2) \<Rightarrow>
                  if c1 \<noteq> Some (CHR '':'') then scan_values fp2
                  else
                    (case skip_ws fp2 of
                       (None, fp3) \<Rightarrow> (True, [])
                     | (Some c2, fp3) \<Rightarrow>
                         if strcmp_eq k KEY_MODEL \<and> c2 = CHR 0x22 then
                           (case read_json_string fp3 of
                              (None, fp4) \<Rightarrow> (False, [])
                            | (Some val, fp4) \<Rightarrow>
                                (case scan_values fp4 of (ok, vs) \<Rightarrow> (ok, val # vs)))
                         else
                           (case consume_json_value fp3 c2 of
                              (False, fp4) \<Rightarrow> (False, [])
                            | (True, fp4) \<Rightarrow> scan_values fp4)))))"
  by pat_completeness auto
termination
  apply (relation "measure length")
     apply simp
    apply simp
  subgoal for c fp x fp1 k c1 fp2
    using read_json_string_length [of fp] skip_ws_length [of fp1]
    apply simp
    apply (metis snd_conv le_trans less_Suc_eq_le)
    done
  subgoal for c fp x fp1 k c1 fp2 x' fp3 c2 y fp4 val
    using read_json_string_length [of fp] skip_ws_length [of fp1]
      skip_ws_length [of fp2] read_json_string_length [of fp3]
    apply simp
    apply (metis snd_conv le_trans less_Suc_eq_le)
    done
  subgoal for c fp x fp1 k c1 fp2 x' fp3 c2 y fp4
    using read_json_string_length [of fp] skip_ws_length [of fp1]
      skip_ws_Some_length [of fp2 c2 fp3] consume_json_value_length [of fp3 c2]
    apply simp
    apply (metis snd_conv le_trans less_Suc_eq_le Suc_leI)
    done
  done

definition emitted :: "char list \<Rightarrow> char list list" where
  "emitted fp = snd (scan_values fp)"

text \<open>
  A literal body without quote or backslash, and the inputs of the three scenarios of
  \<^verbatim>\<open>tests/test_model_count.c\<close> (also given in the specification), and one more input.
\<close>

definition plain :: "char list \<Rightarrow> bool" where
  "plain s = list_all (\<lambda>c. c \<noteq> CHR 0x22 \<and> c \<noteq> CHR 0x5C) s"

definition scenario1 :: "char list" where
  \<open>scenario1 = ''[{"id":1,"model":"RDV2","serial":"A"},{"id":2,"model":"ABC","serial":"B"},{"id":3,"model":"RDV2","serial":"C"}]''\<close>












section \<open>The hash table: invariant and abstraction\<close>

lemma cstr_idem [simp]: "cstr (cstr s) = cstr s"
  by (simp add: cstr_def)

lemma hash_str_cstr [simp]: "hash_str (cstr s) = hash_str s"
  by (simp add: hash_str_def)

lemma bucket_of_cstr [simp]: "bucket_of n (cstr k) = bucket_of n k"
  by (simp add: bucket_of_def)

lemma bucket_of_less: "0 < n \<Longrightarrow> bucket_of n k < n"
  by (simp add: bucket_of_def)

lemma mset_concat_update:
  "i < length bs \<Longrightarrow> mset (concat (bs[i := c])) + mset (bs ! i) = mset (concat bs) + mset c"
proof (induction bs arbitrary: i)
  case Nil
  then show ?case by simp
next
  case (Cons b bs)
  show ?case
  proof (cases i)
    case 0
    then show ?thesis by simp
  next
    case (Suc j)
    with Cons.prems have "j < length bs" by simp
    from Cons.IH [OF this] Suc show ?thesis
      by (simp add: ac_simps)
  qed
qed

lemma relink_eq:
  "relink n e bs = bs[bucket_of n (key e) := e # bs ! bucket_of n (key e)]"
  by (simp add: relink_def bucket_of_def Let_def)

lemma length_relink [simp]: "length (relink n e bs) = length bs"
  by (simp add: relink_eq)

lemma mset_relink:
  assumes "0 < n" "length bs = n"
  shows "mset (concat (relink n e bs)) = add_mset e (mset (concat bs))"
proof -
  have "bucket_of n (key e) < length bs"
    using assms by (simp add: bucket_of_less)
  from mset_concat_update [OF this, of "e # bs ! bucket_of n (key e)"]
  show ?thesis
    by (simp add: relink_eq)
qed

lemma buckets_ok_relink:
  assumes "0 < n" "buckets_ok n bs"
  shows "buckets_ok n (relink n e bs)"
  using assms
  by (auto simp: buckets_ok_def relink_eq bucket_of_less nth_list_update)

lemma fold_relink:
  assumes "0 < n"
  shows "buckets_ok n bs \<Longrightarrow>
    buckets_ok n (fold (relink n) es bs)
    \<and> mset (concat (fold (relink n) es bs)) = mset es + mset (concat bs)"
proof (induction es arbitrary: bs)
  case Nil
  then show ?case by simp
next
  case (Cons e es)
  have ok: "buckets_ok n (relink n e bs)"
    using assms Cons.prems by (rule buckets_ok_relink)
  have "length bs = n"
    using Cons.prems by (simp add: buckets_ok_def)
  then have "mset (concat (relink n e bs)) = add_mset e (mset (concat bs))"
    using assms by (simp add: mset_relink)
  with Cons.IH [OF ok] show ?case by simp
qed

lemma fold_chains: "fold (\<lambda>ch nb. fold f ch nb) bs nb = fold f (concat bs) nb"
  by (induction bs arbitrary: nb) auto

lemma fold_index:
  "fold (\<lambda>i nb. F (bs ! i) nb) [0..<length bs] nb = fold F bs nb"
proof -
  have "fold F (map ((!) bs) [0..<length bs]) nb = fold (F \<circ> (!) bs) [0..<length bs] nb"
    by (simp add: fold_map)
  then show ?thesis
    by (simp add: map_nth comp_def)
qed

lemma buckets_ok_replicate: "buckets_ok n (replicate n [])"
  by (simp add: buckets_ok_def)

lemma table_rehash_eq:
  assumes "length (buckets t) = bucket_count t"
  shows "table_rehash t =
    t\<lparr>buckets := fold (relink (bucket_count t * 2)) (entries t) (replicate (bucket_count t * 2) []),
      bucket_count := bucket_count t * 2\<rparr>"
proof -
  have "fold (\<lambda>i nb. fold (relink (bucket_count t * 2)) (buckets t ! i) nb) [0..<bucket_count t] nb
      = fold (relink (bucket_count t * 2)) (entries t) nb" for nb
    using fold_index [of "\<lambda>ch nb. fold (relink (bucket_count t * 2)) ch nb" "buckets t" nb] assms
    by (simp add: fold_chains entries_def)
  then show ?thesis
    by (simp add: table_rehash_def Let_def)
qed

lemma table_rehash_entries:
  assumes "0 < bucket_count t" "length (buckets t) = bucket_count t"
  shows "mset (entries (table_rehash t)) = mset (entries t)"
    and "buckets_ok (bucket_count t * 2) (buckets (table_rehash t))"
proof -
  have n: "0 < bucket_count t * 2" using assms by simp
  from fold_relink [OF n buckets_ok_replicate, of "entries t"]
  show "mset (entries (table_rehash t)) = mset (entries t)"
    and "buckets_ok (bucket_count t * 2) (buckets (table_rehash t))"
    by (simp_all add: table_rehash_eq [OF assms(2)] entries_def)
qed

lemma table_rehash_fields [simp]:
  "bucket_count (table_rehash t) = bucket_count t * 2"
  "size_tbl (table_rehash t) = size_tbl t"
  by (simp_all add: table_rehash_def Let_def)

lemma table_inv_rehash:
  assumes "table_inv t"
  shows "table_inv (table_rehash t)"
proof -
  from assms have pos: "0 < bucket_count t" and len: "length (buckets t) = bucket_count t"
    by (simp_all add: table_inv_def buckets_ok_def)
  note m = table_rehash_entries [OF pos len]
  have s: "set (entries (table_rehash t)) = set (entries t)"
    using m(1) by (rule mset_eq_setD)
  have "mset (map key (entries (table_rehash t))) = mset (map key (entries t))"
    using m(1) by (metis mset_map)
  then have d: "distinct (map key (entries (table_rehash t))) = distinct (map key (entries t))"
    by (rule mset_eq_imp_distinct_iff)
  have l: "length (entries (table_rehash t)) = length (entries t)"
    using m(1) by (rule mset_eq_length)
  show ?thesis
    using assms m(2) s d l pos by (simp add: table_inv_def)
qed

lemma lookup_rehash:
  assumes "table_inv t"
  shows "lookup (table_rehash t) = lookup t"
proof -
  from assms have pos: "0 < bucket_count t" and len: "length (buckets t) = bucket_count t"
    by (simp_all add: table_inv_def buckets_ok_def)
  have s: "set (entries (table_rehash t)) = set (entries t)"
    using table_rehash_entries(1) [OF pos len] by (rule mset_eq_setD)
  have d1: "distinct (map fst (map kv (entries t)))"
    using assms by (simp add: table_inv_def comp_def kv_def)
  have d2: "distinct (map fst (map kv (entries (table_rehash t))))"
    using table_inv_rehash [OF assms] by (simp add: table_inv_def comp_def kv_def)
  show ?thesis
    unfolding lookup_def using d1 d2 s by (simp add: map_of_inject_set)
qed

lemma map_of_bucket:
  assumes "j < length bs" "\<forall>i<length bs. i \<noteq> j \<longrightarrow> k \<notin> key ` set (bs ! i)"
  shows "map_of (map kv (concat bs)) k = map_of (map kv (bs ! j)) k"
  using assms
proof (induction bs arbitrary: j)
  case Nil
  then show ?case by simp
next
  case (Cons b bs)
  show ?case
  proof (cases j)
    case 0
    have "k \<notin> key ` set (bs ! i)" if "i < length bs" for i
      using Cons.prems(2) [rule_format, of "Suc i"] that 0 by simp
    then have "\<forall>b\<in>set bs. k \<notin> key ` set b"
      by (metis in_set_conv_nth)
    then have "k \<notin> key ` set (concat bs)"
      by auto
    then have "map_of (map kv (concat bs)) k = None"
      by (simp add: map_of_eq_None_iff image_image kv_def)
    with 0 show ?thesis
      by (simp add: map_add_def split: option.splits)
  next
    case (Suc j')
    have "k \<notin> key ` set b"
      using Cons.prems(2) [rule_format, of 0] Suc by simp
    then have none: "map_of (map kv b) k = None"
      by (simp add: map_of_eq_None_iff image_image kv_def)
    have "map_of (map kv (concat bs)) k = map_of (map kv (bs ! j')) k"
    proof (rule Cons.IH)
      show "j' < length bs" using Cons.prems(1) Suc by simp
      show "\<forall>i<length bs. i \<noteq> j' \<longrightarrow> k \<notin> key ` set (bs ! i)"
        using Cons.prems(2) Suc by auto
    qed
    with none Suc show ?thesis
      by (simp add: map_add_def split: option.splits)
  qed
qed

lemma lookup_bucket:
  assumes "0 < n" "buckets_ok n bs"
  shows "map_of (map kv (concat bs)) k = map_of (map kv (bs ! bucket_of n k)) k"
proof (rule map_of_bucket)
  show "bucket_of n k < length bs"
    using assms by (simp add: buckets_ok_def bucket_of_less)
  show "\<forall>i<length bs. i \<noteq> bucket_of n k \<longrightarrow> k \<notin> key ` set (bs ! i)"
    using assms(2) by (auto simp: buckets_ok_def)
qed

lemma chain_get_map_of:
  assumes "\<forall>e\<in>set ch. cstr (key e) = key e"
  shows "chain_get ch k = (case map_of (map kv ch) (cstr k) of None \<Rightarrow> 0 | Some c \<Rightarrow> c)"
  using assms by (induction ch) (auto simp: strcmp_eq_def kv_def)

lemma table_inv_chain:
  assumes "table_inv t" "i < bucket_count t"
  shows "\<forall>e\<in>set (buckets t ! i). cstr (key e) = key e"
  using assms by (auto simp: table_inv_def entries_def buckets_ok_def)

lemma get_count_lookup:
  assumes "table_inv t"
  shows "get_count t k = (case lookup t (cstr k) of None \<Rightarrow> 0 | Some c \<Rightarrow> c)"
proof -
  from assms have pos: "0 < bucket_count t" and ok: "buckets_ok (bucket_count t) (buckets t)"
    by (simp_all add: table_inv_def)
  have "bucket_of (bucket_count t) k < bucket_count t"
    using pos by (rule bucket_of_less)
  from table_inv_chain [OF assms this]
  have "chain_get (buckets t ! bucket_of (bucket_count t) k) k
      = (case map_of (map kv (buckets t ! bucket_of (bucket_count t) k)) (cstr k) of
           None \<Rightarrow> 0 | Some c \<Rightarrow> c)"
    by (rule chain_get_map_of)
  moreover have "lookup t (cstr k) = map_of (map kv (buckets t ! bucket_of (bucket_count t) k)) (cstr k)"
    using lookup_bucket [OF pos ok, of "cstr k"] by (simp add: lookup_def entries_def)
  ultimately show ?thesis
    by (simp add: get_count_def bucket_of_def Let_def)
qed

lemma chain_inc_None:
  assumes "\<forall>e\<in>set ch. cstr (key e) = key e"
  shows "chain_inc ch k = None \<longleftrightarrow> cstr k \<notin> key ` set ch"
  using assms by (induction ch) (auto simp: strcmp_eq_def)

lemma chain_inc_Some:
  assumes "\<forall>e\<in>set ch. cstr (key e) = key e" "chain_inc ch k = Some ch'"
  shows "map key ch' = map key ch"
    and "map_of (map kv ch') = (map_of (map kv ch))(cstr k \<mapsto> the (map_of (map kv ch) (cstr k)) + 1)"
    and "sum_list (map count_e ch') = sum_list (map count_e ch) + 1"
  using assms
proof (induction ch arbitrary: ch')
  case Nil
  {
    case 1 then show ?case by simp
  next
    case 2 then show ?case by simp
  next
    case 3 then show ?case by simp
  }
next
  case (Cons e es)
  {
    case 1
    then show ?case
      using Cons.IH(1) by (auto simp: strcmp_eq_def split: if_splits)
  next
    case 2
    then show ?case
      using Cons.IH(2) by (auto simp: strcmp_eq_def kv_def fun_upd_twist split: if_splits)
  next
    case 3
    then show ?case
      using Cons.IH(3) by (auto simp: strcmp_eq_def split: if_splits)
  }
qed

lemma table_inc_eq:
  "table_inc t k =
     insert_step (if size_tbl t * 4 \<ge> bucket_count t * 3 then table_rehash t else t) k"
  unfolding table_inc_def insert_step_def bucket_of_def Let_def
    LOAD_FACTOR_DEN_def LOAD_FACTOR_NUM_def
  by simp

lemma sum_list_mset_cong:
  fixes f :: "'a \<Rightarrow> 'b::comm_monoid_add"
  assumes "mset xs = mset ys"
  shows "sum_list (map f xs) = sum_list (map f ys)"
proof -
  have "mset (map f xs) = mset (map f ys)"
    using assms by (metis mset_map)
  then have "sum_mset (mset (map f xs)) = sum_mset (mset (map f ys))"
    by simp
  then show ?thesis
    by (simp only: sum_mset_sum_list)
qed

lemma insert_step_found:
  assumes inv: "table_inv t"
    and found: "chain_inc (buckets t ! bucket_of (bucket_count t) k) k = Some ch'"
  shows "table_inv (insert_step t k)"
    and "lookup (insert_step t k) = (lookup t)(cstr k \<mapsto> the (lookup t (cstr k)) + 1)"
    and "lookup t (cstr k) \<noteq> None"
    and "sum_counts (insert_step t k) = sum_counts t + 1"
    and "size_tbl (insert_step t k) = size_tbl t"
proof -
  define n where "n = bucket_count t"
  define bs where "bs = buckets t"
  define idx where "idx = bucket_of n k"
  define bs' where "bs' = bs[idx := ch']"
  from inv have pos: "0 < n" and ok: "buckets_ok n bs" and len: "length bs = n"
    by (simp_all add: table_inv_def buckets_ok_def n_def bs_def)
  have idx: "idx < n" "idx < length bs"
    using pos len by (simp_all add: idx_def bucket_of_less)
  have cs: "\<forall>e\<in>set (bs ! idx). cstr (key e) = key e"
    using table_inv_chain [OF inv] idx(1) by (simp add: n_def bs_def)
  have f: "chain_inc (bs ! idx) k = Some ch'"
    using found by (simp add: n_def bs_def idx_def)
  note ci = chain_inc_Some [OF cs f]
  have t': "insert_step t k = t\<lparr>buckets := bs'\<rparr>"
    using found by (simp add: insert_step_def n_def bs_def idx_def bs'_def)
  have keys: "map key (concat bs') = map key (concat bs)"
  proof -
    have "map (map key) bs' = (map (map key) bs)[idx := map (map key) bs ! idx]"
      using idx(2) ci(1) by (simp add: bs'_def map_update)
    then have "map (map key) bs' = map (map key) bs"
      by simp
    then show ?thesis
      by (simp add: map_concat)
  qed
  have ok': "buckets_ok n bs'"
    unfolding buckets_ok_def
  proof (intro conjI allI impI ballI)
    show "length bs' = n" using len by (simp add: bs'_def)
  next
    fix i e assume i: "i < n" and e: "e \<in> set (bs' ! i)"
    show "bucket_of n (key e) = i"
    proof (cases "i = idx")
      case True
      then have "e \<in> set ch'" using e idx(2) by (simp add: bs'_def)
      then have "key e \<in> set (map key ch')" by simp
      then have "key e \<in> set (map key (bs ! idx))" using ci(1) by simp
      then obtain e' where e': "e' \<in> set (bs ! idx)" "key e' = key e" by auto
      have "bucket_of n (key e') = idx"
        using ok idx(1) e'(1) by (simp add: buckets_ok_def)
      then show ?thesis using e'(2) True by simp
    next
      case False
      then have "e \<in> set (bs ! i)" using e by (simp add: bs'_def)
      then show ?thesis using ok i by (auto simp: buckets_ok_def)
    qed
  qed
  have cstr': "\<forall>e\<in>set (concat bs'). cstr (key e) = key e"
  proof
    fix e assume "e \<in> set (concat bs')"
    then have "key e \<in> set (map key (concat bs'))" by (simp del: set_concat)
    then have "key e \<in> set (map key (concat bs))" using keys by simp
    then have "key e \<in> key ` set (concat bs)" by (simp only: set_map)
    then obtain e' where e': "e' \<in> set (concat bs)" "key e' = key e"
      by (metis (no_types) imageE)
    have "\<forall>e\<in>set (concat bs). cstr (key e) = key e"
      using inv by (simp add: table_inv_def entries_def bs_def del: set_concat)
    then have "cstr (key e') = key e'"
      using e'(1) by (rule bspec)
    then show "cstr (key e) = key e"
      using e'(2) by simp
  qed
  have len': "length (concat bs') = length (concat bs)"
    using keys by (metis length_map)
  show "table_inv (insert_step t k)"
    using inv ok' cstr' keys len' pos
    by (simp add: t' table_inv_def entries_def n_def bs_def)
  have lk: "lookup t (cstr k) = map_of (map kv (bs ! idx)) (cstr k)"
    using lookup_bucket [OF pos ok, of "cstr k"]
    by (simp add: lookup_def entries_def bs_def idx_def)
  have "cstr k \<in> key ` set (bs ! idx)"
    using chain_inc_None [OF cs, of k] f by simp
  then have "map_of (map kv (bs ! idx)) (cstr k) \<noteq> None"
    by (simp add: map_of_eq_None_iff image_image kv_def)
  with lk show "lookup t (cstr k) \<noteq> None" by simp
  show "lookup (insert_step t k) = (lookup t)(cstr k \<mapsto> the (lookup t (cstr k)) + 1)"
  proof
    fix k'
    have a: "lookup (insert_step t k) k' = map_of (map kv (bs' ! bucket_of n k')) k'"
      using lookup_bucket [OF pos ok', of k'] by (simp add: t' lookup_def entries_def)
    have b: "lookup t k' = map_of (map kv (bs ! bucket_of n k')) k'"
      using lookup_bucket [OF pos ok, of k'] by (simp add: lookup_def entries_def bs_def)
    show "lookup (insert_step t k) k' = ((lookup t)(cstr k \<mapsto> the (lookup t (cstr k)) + 1)) k'"
    proof (cases "bucket_of n k' = idx")
      case True
      then show ?thesis
        using a b lk ci(2) idx(2) by (simp add: bs'_def)
    next
      case False
      then have "k' \<noteq> cstr k" by (auto simp: idx_def)
      with False show ?thesis
        using a b by (simp add: bs'_def)
    qed
  qed
  have "mset (concat bs') + mset (bs ! idx) = mset (concat bs) + mset ch'"
    unfolding bs'_def using idx(2) by (rule mset_concat_update)
  then have "mset (concat bs' @ bs ! idx) = mset (concat bs @ ch')"
    by simp
  then have "sum_list (map count_e (concat bs' @ bs ! idx)) = sum_list (map count_e (concat bs @ ch'))"
    by (rule sum_list_mset_cong)
  then show "sum_counts (insert_step t k) = sum_counts t + 1"
    using ci(3) by (simp add: t' sum_counts_def entries_def bs_def)
  show "size_tbl (insert_step t k) = size_tbl t"
    by (simp add: t')
qed

lemma insert_step_new:
  assumes inv: "table_inv t"
    and new: "chain_inc (buckets t ! bucket_of (bucket_count t) k) k = None"
  shows "table_inv (insert_step t k)"
    and "lookup (insert_step t k) = (lookup t)(cstr k \<mapsto> 1)"
    and "lookup t (cstr k) = None"
    and "sum_counts (insert_step t k) = sum_counts t + 1"
    and "size_tbl (insert_step t k) = size_tbl t + 1"
proof -
  define n where "n = bucket_count t"
  define bs where "bs = buckets t"
  define idx where "idx = bucket_of n k"
  define ne where "ne = \<lparr>key = cstr k, count_e = 1\<rparr>"
  define bs' where "bs' = bs[idx := ne # bs ! idx]"
  from inv have pos: "0 < n" and ok: "buckets_ok n bs" and len: "length bs = n"
    by (simp_all add: table_inv_def buckets_ok_def n_def bs_def)
  have idx: "idx < n" "idx < length bs"
    using pos len by (simp_all add: idx_def bucket_of_less)
  have cs: "\<forall>e\<in>set (bs ! idx). cstr (key e) = key e"
    using table_inv_chain [OF inv] idx(1) by (simp add: n_def bs_def)
  have f: "chain_inc (bs ! idx) k = None"
    using new by (simp add: n_def bs_def idx_def)
  have t': "insert_step t k = t\<lparr>buckets := bs', size_tbl := size_tbl t + 1\<rparr>"
    using new by (simp add: insert_step_def n_def bs_def idx_def bs'_def ne_def xstrdup_def)
  have lk: "lookup t (cstr k) = map_of (map kv (bs ! idx)) (cstr k)"
    using lookup_bucket [OF pos ok, of "cstr k"]
    by (simp add: lookup_def entries_def bs_def idx_def)
  have "cstr k \<notin> key ` set (bs ! idx)"
    using chain_inc_None [OF cs, of k] f by simp
  then have "map_of (map kv (bs ! idx)) (cstr k) = None"
    by (simp add: map_of_eq_None_iff image_image kv_def)
  with lk show none: "lookup t (cstr k) = None" by simp
  then have fresh: "cstr k \<notin> key ` set (concat bs)"
    by (simp add: lookup_def entries_def bs_def map_of_eq_None_iff image_image kv_def
        del: set_concat)
  have "mset (concat bs') + mset (bs ! idx) = mset (concat bs) + mset (ne # bs ! idx)"
    unfolding bs'_def using idx(2) by (rule mset_concat_update)
  then have m: "mset (concat bs') = mset (ne # concat bs)"
    by simp
  have s: "set (concat bs') = set (ne # concat bs)"
    using m by (rule mset_eq_setD)
  have "mset (map key (concat bs')) = mset (map key (ne # concat bs))"
    using m by (metis mset_map)
  then have "distinct (map key (concat bs')) = distinct (map key (ne # concat bs))"
    by (rule mset_eq_imp_distinct_iff)
  then have d: "distinct (map key (concat bs'))"
    using inv fresh by (simp add: table_inv_def entries_def bs_def ne_def del: set_concat)
  have l: "length (concat bs') = length (ne # concat bs)"
    using m by (rule mset_eq_length)
  have ok': "buckets_ok n bs'"
    using ok idx by (auto simp: buckets_ok_def bs'_def nth_list_update ne_def idx_def)
  have c0: "\<forall>e\<in>set (concat bs). cstr (key e) = key e"
    using inv by (simp add: table_inv_def entries_def bs_def del: set_concat)
  have cstr': "\<forall>e\<in>set (concat bs'). cstr (key e) = key e"
    unfolding s using c0 by (simp add: ne_def del: set_concat)
  show "table_inv (insert_step t k)"
    using inv ok' cstr' d l pos
    by (simp add: t' table_inv_def entries_def n_def bs_def del: set_concat)
  have d0: "distinct (map fst (map kv (ne # concat bs)))"
    using inv fresh by (simp add: table_inv_def entries_def bs_def ne_def comp_def kv_def
        del: set_concat)
  have d1: "distinct (map fst (map kv (concat bs')))"
    using d by (simp add: comp_def kv_def)
  have "set (map kv (concat bs')) = set (map kv (ne # concat bs))"
    using s by (simp only: set_map)
  then have "map_of (map kv (concat bs')) = map_of (map kv (ne # concat bs))"
    using d0 d1 by (simp only: map_of_inject_set)
  then show "lookup (insert_step t k) = (lookup t)(cstr k \<mapsto> 1)"
    by (simp add: t' lookup_def entries_def bs_def ne_def kv_def)
  have "sum_list (map count_e (concat bs')) = sum_list (map count_e (ne # concat bs))"
    using m by (rule sum_list_mset_cong)
  then show "sum_counts (insert_step t k) = sum_counts t + 1"
    by (simp add: t' sum_counts_def entries_def bs_def ne_def)
  show "size_tbl (insert_step t k) = size_tbl t + 1"
    by (simp add: t')
qed

lemma insert_step_bucket_count [simp]:
  "bucket_count (insert_step t k) = bucket_count t"
  by (simp add: insert_step_def split: option.splits)

lemma insert_step_correct:
  assumes "table_inv t"
  shows "table_inv (insert_step t k)"
    and "lookup (insert_step t k) =
      (lookup t)(cstr k \<mapsto> (case lookup t (cstr k) of None \<Rightarrow> 1 | Some c \<Rightarrow> c + 1))"
    and "sum_counts (insert_step t k) = sum_counts t + 1"
    and "size_tbl (insert_step t k) = (if lookup t (cstr k) = None then size_tbl t + 1 else size_tbl t)"
proof -
  have "table_inv (insert_step t k)
    \<and> lookup (insert_step t k) =
      (lookup t)(cstr k \<mapsto> (case lookup t (cstr k) of None \<Rightarrow> 1 | Some c \<Rightarrow> c + 1))
    \<and> sum_counts (insert_step t k) = sum_counts t + 1
    \<and> size_tbl (insert_step t k) = (if lookup t (cstr k) = None then size_tbl t + 1 else size_tbl t)"
  proof (cases "chain_inc (buckets t ! bucket_of (bucket_count t) k) k")
    case None
    note n = insert_step_new [OF assms None]
    show ?thesis
      using n(1) n(4) n(5) by (simp add: n(2) n(3))
  next
    case (Some ch')
    note f = insert_step_found [OF assms Some]
    from f(3) obtain c where c: "lookup t (cstr k) = Some c" by auto
    show ?thesis
      using f(1) f(4) f(5) by (simp add: f(2) c)
  qed
  then show "table_inv (insert_step t k)"
    and "lookup (insert_step t k) =
      (lookup t)(cstr k \<mapsto> (case lookup t (cstr k) of None \<Rightarrow> 1 | Some c \<Rightarrow> c + 1))"
    and "sum_counts (insert_step t k) = sum_counts t + 1"
    and "size_tbl (insert_step t k) = (if lookup t (cstr k) = None then size_tbl t + 1 else size_tbl t)"
    by simp_all
qed

lemma sum_counts_rehash:
  assumes "table_inv t"
  shows "sum_counts (table_rehash t) = sum_counts t"
proof -
  from assms have pos: "0 < bucket_count t" and len: "length (buckets t) = bucket_count t"
    by (simp_all add: table_inv_def buckets_ok_def)
  show ?thesis
    unfolding sum_counts_def
    using table_rehash_entries(1) [OF pos len] by (rule sum_list_mset_cong)
qed

lemma table_inc_correct:
  assumes "table_inv t"
  shows "table_inv (table_inc t k)"
    and "lookup (table_inc t k) =
      (lookup t)(cstr k \<mapsto> (case lookup t (cstr k) of None \<Rightarrow> 1 | Some c \<Rightarrow> c + 1))"
    and "sum_counts (table_inc t k) = sum_counts t + 1"
    and "size_tbl (table_inc t k) = (if lookup t (cstr k) = None then size_tbl t + 1 else size_tbl t)"
proof -
  define t1 where "t1 = (if size_tbl t * 4 \<ge> bucket_count t * 3 then table_rehash t else t)"
  have inv1: "table_inv t1"
    using assms table_inv_rehash [OF assms] by (simp add: t1_def)
  have l1: "lookup t1 = lookup t"
    using lookup_rehash [OF assms] by (simp add: t1_def)
  have s1: "sum_counts t1 = sum_counts t"
    using sum_counts_rehash [OF assms] by (simp add: t1_def)
  have z1: "size_tbl t1 = size_tbl t"
    by (simp add: t1_def)
  have eq: "table_inc t k = insert_step t1 k"
    by (simp add: table_inc_eq t1_def)
  note c = insert_step_correct [OF inv1, of k]
  show "table_inv (table_inc t k)"
    using c(1) by (simp add: eq)
  show "lookup (table_inc t k) =
      (lookup t)(cstr k \<mapsto> (case lookup t (cstr k) of None \<Rightarrow> 1 | Some c \<Rightarrow> c + 1))"
    using c(2) by (simp add: eq l1)
  show "sum_counts (table_inc t k) = sum_counts t + 1"
    using c(3) by (simp add: eq s1)
  show "size_tbl (table_inc t k) = (if lookup t (cstr k) = None then size_tbl t + 1 else size_tbl t)"
    using c(4) by (simp add: eq l1 z1)
qed

lemma table_inv_init: "0 < n \<Longrightarrow> table_inv (table_init n)"
  by (simp add: table_inv_def table_init_def buckets_ok_def entries_def)

lemma lookup_init [simp]: "lookup (table_init n) = Map.empty"
  by (simp add: lookup_def table_init_def entries_def)

lemma sum_counts_init [simp]: "sum_counts (table_init n) = 0"
  by (simp add: sum_counts_def table_init_def entries_def)

lemma table_inv_foldl: "table_inv t \<Longrightarrow> table_inv (foldl table_inc t ks)"
  by (induction ks arbitrary: t) (simp_all add: table_inc_correct(1))

lemma get_count_inc:
  assumes "table_inv t"
  shows "get_count (table_inc t k) v = get_count t v + (if cstr k = cstr v then 1 else 0)"
  using table_inc_correct(2) [OF assms, of k]
  by (simp add: get_count_lookup [OF assms] get_count_lookup [OF table_inc_correct(1) [OF assms]]
      split: option.splits)

lemma get_count_foldl:
  "table_inv t \<Longrightarrow>
   get_count (foldl table_inc t ks) v = get_count t v + of_nat (count_list (map cstr ks) (cstr v))"
proof (induction ks arbitrary: t)
  case Nil
  then show ?case by simp
next
  case (Cons k ks)
  from Cons.IH [OF table_inc_correct(1) [OF Cons.prems], of k]
  show ?case
    by (simp add: get_count_inc [OF Cons.prems])
qed

lemma get_count_init [simp]: "0 < n \<Longrightarrow> get_count (table_init n) v = 0"
  by (simp add: get_count_lookup [OF table_inv_init])

lemma dom_lookup_foldl:
  "table_inv t \<Longrightarrow> dom (lookup (foldl table_inc t ks)) = dom (lookup t) \<union> set (map cstr ks)"
proof (induction ks arbitrary: t)
  case Nil
  then show ?case by simp
next
  case (Cons k ks)
  have d: "dom (lookup (table_inc t k)) = insert (cstr k) (dom (lookup t))"
    unfolding table_inc_correct(2) [OF Cons.prems] by (simp only: dom_fun_upd) simp
  from Cons.IH [OF table_inc_correct(1) [OF Cons.prems], of k]
  show ?case
    by (simp add: d)
qed

lemma size_tbl_card:
  assumes "table_inv t"
  shows "size_tbl t = card (dom (lookup t))"
proof -
  have "dom (lookup t) = set (map key (entries t))"
    by (simp add: lookup_def dom_map_of_conv_image_fst image_image kv_def)
  moreover have "card (set (map key (entries t))) = length (map key (entries t))"
    using assms by (intro distinct_card) (simp add: table_inv_def)
  ultimately show ?thesis
    using assms by (simp add: table_inv_def)
qed

lemma sum_counts_foldl:
  "table_inv t \<Longrightarrow> sum_counts (foldl table_inc t ks) = sum_counts t + of_nat (length ks)"
proof (induction ks arbitrary: t)
  case Nil
  then show ?case by simp
next
  case (Cons k ks)
  from Cons.IH [OF table_inc_correct(1) [OF Cons.prems], of k]
  show ?case
    by (simp add: table_inc_correct(3) [OF Cons.prems])
qed

lemma table_inc_bucket_count:
  "bucket_count (table_inc t k) =
     (if size_tbl t * 4 \<ge> bucket_count t * 3 then bucket_count t * 2 else bucket_count t)"
  by (simp add: table_inc_eq)

lemma insert_step_size_le: "size_tbl (insert_step t k) \<le> size_tbl t + 1"
  by (simp add: insert_step_def split: option.splits)

lemma table_inc_size_le: "size_tbl (table_inc t k) \<le> size_tbl t + 1"
  using insert_step_size_le [of "if size_tbl t * 4 \<ge> bucket_count t * 3 then table_rehash t else t" k]
  by (simp add: table_inc_eq split: if_splits)

lemma load_ok_inc:
  assumes "load_ok t"
  shows "load_ok (table_inc t k)"
proof -
  from assms obtain m where m: "bucket_count t = 4 * m" "0 < m" "size_tbl t \<le> 3 * m"
    by (auto simp: load_ok_def dvd_def)
  have s: "size_tbl (table_inc t k) \<le> size_tbl t + 1"
    by (rule table_inc_size_le)
  show ?thesis
  proof (cases "size_tbl t * 4 \<ge> bucket_count t * 3")
    case True
    then have "bucket_count (table_inc t k) = 8 * m"
      using m by (simp add: table_inc_bucket_count)
    then show ?thesis
      using s m by (simp add: load_ok_def)
  next
    case False
    then have "bucket_count (table_inc t k) = 4 * m" "size_tbl t < 3 * m"
      using m by (simp_all add: table_inc_bucket_count)
    then show ?thesis
      using s m by (simp add: load_ok_def)
  qed
qed

lemma load_ok_init: "load_ok (table_init INITIAL_BUCKETS)"
  by (simp add: load_ok_def table_init_def INITIAL_BUCKETS_def)

lemma load_ok_foldl: "load_ok t \<Longrightarrow> load_ok (foldl table_inc t ks)"
  by (induction ks arbitrary: t) (simp_all add: load_ok_inc)

lemma no_growth:
  "bucket_count t = 4096 \<Longrightarrow> size_tbl t + length ks \<le> 3072 \<Longrightarrow>
   bucket_count (foldl table_inc t ks) = 4096"
proof (induction ks arbitrary: t)
  case Nil
  then show ?case by simp
next
  case (Cons k ks)
  have "bucket_count (table_inc t k) = 4096"
    using Cons.prems by (simp add: table_inc_bucket_count)
  moreover have "size_tbl (table_inc t k) + length ks \<le> 3072"
    using Cons.prems(2) table_inc_size_le [of t k] by simp
  ultimately show ?case
    using Cons.IH [of "table_inc t k"] by simp
qed

lemma cstr_replicate_a [simp]: "cstr (replicate i (CHR ''a'')) = replicate i (CHR ''a'')"
  by (simp add: cstr_def)

lemma a_keys_facts:
  "map cstr (a_keys n) = a_keys n" "distinct (a_keys n)" "length (a_keys n) = n"
proof -
  show "map cstr (a_keys n) = a_keys n"
    by (simp add: a_keys_def)
  have "inj_on (\<lambda>i. replicate i (CHR ''a'')) (set [0..<n])"
    by (rule inj_onI) (metis length_replicate)
  then show "distinct (a_keys n)"
    by (simp add: a_keys_def distinct_map)
  show "length (a_keys n) = n"
    by (simp add: a_keys_def)
qed

lemma size_tbl_from_init:
  assumes "0 < n"
  shows "size_tbl (foldl table_inc (table_init n) ks) = card (set (map cstr ks))"
  using size_tbl_card [OF table_inv_foldl [OF table_inv_init [OF assms]], of ks]
    dom_lookup_foldl [OF table_inv_init [OF assms], of ks]
  by simp

lemma full_load:
  "size_tbl (foldl table_inc (table_init INITIAL_BUCKETS) (a_keys 3072)) = 3072"
  "bucket_count (foldl table_inc (table_init INITIAL_BUCKETS) (a_keys 3072)) = 4096"
proof -
  have "card (set (a_keys 3072)) = 3072"
    using distinct_card [OF a_keys_facts(2), of 3072] by (simp only: a_keys_facts(3))
  then show "size_tbl (foldl table_inc (table_init INITIAL_BUCKETS) (a_keys 3072)) = 3072"
    by (simp add: size_tbl_from_init INITIAL_BUCKETS_def a_keys_facts(1))
  show "bucket_count (foldl table_inc (table_init INITIAL_BUCKETS) (a_keys 3072)) = 4096"
    by (rule no_growth) (simp_all add: table_init_def INITIAL_BUCKETS_def a_keys_facts(3))
qed

section \<open>The scanner: facts about the loops\<close>

lemma process_file_scan_values:
  "process_file fp t ms =
     (fst (scan_values fp), foldl table_inc t (snd (scan_values fp)),
      ms + of_nat (length (snd (scan_values fp))))"
  by (induction fp t ms rule: process_file.induct)
     (auto split: prod.splits option.splits bool.splits)

lemma run_eq:
  "run_ok fp = fst (scan_values fp)"
  "run_table fp = foldl table_inc (table_init INITIAL_BUCKETS) (emitted fp)"
  "run_seen fp = of_nat (length (emitted fp))"
  by (simp_all add: run_ok_def run_table_def run_seen_def run_def emitted_def
      process_file_scan_values)

lemma process_file_quote:
  "process_file (CHR 0x22 # fp) table models_seen =
     (case read_json_string fp of
        (None, fp1) \<Rightarrow> (False, table, models_seen)
      | (Some k, fp1) \<Rightarrow>
          (case skip_ws fp1 of
             (c1, fp2) \<Rightarrow>
               if c1 \<noteq> Some (CHR '':'') then process_file fp2 table models_seen
               else
                 (case skip_ws fp2 of
                    (None, fp3) \<Rightarrow> (True, table, models_seen)
                  | (Some c2, fp3) \<Rightarrow>
                      if strcmp_eq k KEY_MODEL \<and> c2 = CHR 0x22 then
                        (case read_json_string fp3 of
                           (None, fp4) \<Rightarrow> (False, table, models_seen)
                         | (Some val, fp4) \<Rightarrow>
                             process_file fp4 (table_inc table val) (models_seen + 1))
                      else
                        (case consume_json_value fp3 c2 of
                           (False, fp4) \<Rightarrow> (False, table, models_seen)
                         | (True, fp4) \<Rightarrow> process_file fp4 table models_seen))))"
  by simp

lemma process_file_value:
  assumes "read_json_string fp = (Some k, fp1)" "skip_ws fp1 = (Some (CHR '':''), fp2)"
    "skip_ws fp2 = (Some c, fp3)"
  shows "process_file (CHR 0x22 # fp) table models_seen =
     (if strcmp_eq k KEY_MODEL \<and> c = CHR 0x22 then
        (case read_json_string fp3 of
           (None, fp4) \<Rightarrow> (False, table, models_seen)
         | (Some val, fp4) \<Rightarrow> process_file fp4 (table_inc table val) (models_seen + 1))
      else
        (case consume_json_value fp3 c of
           (False, fp4) \<Rightarrow> (False, table, models_seen)
         | (True, fp4) \<Rightarrow> process_file fp4 table models_seen))"
  using assms by (simp only: process_file_quote) simp

lemma skip_ws_None: "skip_ws fp = (None, fp') \<longleftrightarrow> list_all isspace fp \<and> fp' = []"
  by (induction fp) auto

lemma scalar_loop_eq:
  "scalar_loop c fp =
     (if is_delim c then (Some c, fp)
      else (case dropWhile (\<lambda>c. \<not> is_delim c) fp of
              [] \<Rightarrow> (None, [])
            | d # r \<Rightarrow> (Some d, r)))"
  by (induction c fp rule: scalar_loop.induct) auto


lemma read_json_string_loop_plain:
  "plain s \<Longrightarrow> read_json_string_loop buf (s @ fp) = read_json_string_loop (buf @ s) fp"
  by (induction s arbitrary: buf) (simp_all add: plain_def)












lemma container_loop_fails_at_eof:
  "container_loop d i e fp = (False, fp') \<Longrightarrow> fp' = []"
  by (induction d i e fp rule: container_loop.induct) (auto split: if_splits)

lemma process_file_key_fails:
  "fst (read_json_string fp) = None \<Longrightarrow> \<not> fst (process_file (CHR 0x22 # fp) t ms)"
  by (cases "read_json_string fp") (simp add: process_file_quote)

lemma process_file_value_fails:
  assumes "read_json_string fp = (Some k, fp1)" "skip_ws fp1 = (Some (CHR '':''), fp2)"
    "skip_ws fp2 = (Some c, fp3)"
  shows "c = CHR 0x22 \<Longrightarrow> fst (read_json_string fp3) = None
           \<Longrightarrow> \<not> fst (process_file (CHR 0x22 # fp) t ms)"
    and "c = CHR ''{'' \<or> c = CHR ''['' \<Longrightarrow> \<not> fst (container_loop 1 False False fp3)
           \<Longrightarrow> \<not> fst (process_file (CHR 0x22 # fp) t ms)"
proof -
  show "\<not> fst (process_file (CHR 0x22 # fp) t ms)"
    if "c = CHR 0x22" "fst (read_json_string fp3) = None"
    unfolding process_file_value [OF assms]
    using that by (cases "read_json_string fp3") (simp add: consume_json_value_def)
  show "\<not> fst (process_file (CHR 0x22 # fp) t ms)"
    if "c = CHR ''{'' \<or> c = CHR ''[''" "\<not> fst (container_loop 1 False False fp3)"
    unfolding process_file_value [OF assms]
    using that by (cases "container_loop 1 False False fp3") (auto simp: consume_json_value_def)
qed

lemma read_hex_ok:
  "fst (read_hex n fp) \<longleftrightarrow> n \<le> length fp \<and> list_all isxdigit (take n fp)"
  by (induction n fp rule: read_hex.induct) auto

lemma read_hex_rest:
  "fst (read_hex n fp) \<Longrightarrow> snd (read_hex n fp) = drop n fp"
  by (induction n fp rule: read_hex.induct) (auto split: if_splits)

lemma read_hex_True:
  "n \<le> length fp \<Longrightarrow> list_all isxdigit (take n fp) \<Longrightarrow> read_hex n fp = (True, drop n fp)"
  using read_hex_ok [of n fp] read_hex_rest [of n fp]
  by (cases "read_hex n fp") simp

lemma escape_u_ok:
  assumes "4 \<le> length fp" "list_all isxdigit (take 4 fp)"
  shows "read_json_string_loop buf (CHR 0x5C # CHR ''u'' # fp)
         = read_json_string_loop (buf @ [CHR ''?'']) (drop 4 fp)"
  by (simp add: read_hex_True [OF assms])

lemma escape_u_bad:
  assumes "\<not> (4 \<le> length fp \<and> list_all isxdigit (take 4 fp))"
  shows "fst (read_json_string_loop buf (CHR 0x5C # CHR ''u'' # fp)) = None"
proof -
  have "\<not> fst (read_hex 4 fp)"
    using assms by (simp only: read_hex_ok) simp
  then show ?thesis
    by (cases "read_hex 4 fp") simp
qed

lemma escape_other:
  "esc \<noteq> CHR ''u'' \<Longrightarrow>
   read_json_string_loop buf (CHR 0x5C # esc # fp)
   = read_json_string_loop (buf @ [unescape esc]) fp"
  by simp

lemma escape_bad_scan:
  assumes "plain pre" "\<not> (4 \<le> length fp \<and> list_all isxdigit (take 4 fp))"
  shows "\<not> fst (process_file (CHR 0x22 # pre @ CHR 0x5C # CHR ''u'' # fp) t ms)"
proof -
  have "fst (read_json_string (pre @ CHR 0x5C # CHR ''u'' # fp)) = None"
    unfolding read_json_string_def read_json_string_loop_plain [OF assms(1)]
    using assms(2) by (rule escape_u_bad)
  then show ?thesis
    by (rule process_file_key_fails)
qed

lemma escape_bad_scan_value:
  assumes "plain pre" "\<not> (4 \<le> length fp \<and> list_all isxdigit (take 4 fp))"
    "read_json_string fp0 = (Some k, fp_k)" "skip_ws fp_k = (Some (CHR '':''), fp_c)"
    "skip_ws fp_c = (Some (CHR 0x22), pre @ CHR 0x5C # CHR ''u'' # fp)"
  shows "\<not> fst (process_file (CHR 0x22 # fp0) t ms)"
proof -
  have "fst (read_json_string (pre @ CHR 0x5C # CHR ''u'' # fp)) = None"
    unfolding read_json_string_def read_json_string_loop_plain [OF assms(1)]
    using assms(2) by (rule escape_u_bad)
  with refl show ?thesis
    by (rule process_file_value_fails(1) [OF assms(3,4,5)])
qed

lemma unat_sum_list:
  "unat (sum_list (map f xs) :: 64 word) = sum_list (map (\<lambda>x. unat (f x)) xs) mod 2 ^ 64"
proof (induction xs)
  case Nil
  then show ?case by simp
next
  case (Cons x xs)
  have "unat (f x + sum_list (map f xs)) = (unat (f x) + unat (sum_list (map f xs))) mod 2 ^ 64"
    by (simp add: unat_word_ariths)
  also have "\<dots> = (unat (f x) + sum_list (map (\<lambda>x. unat (f x)) xs) mod 2 ^ 64) mod 2 ^ 64"
    by (simp only: Cons.IH)
  also have "\<dots> = (unat (f x) + sum_list (map (\<lambda>x. unat (f x)) xs)) mod 2 ^ 64"
    by (rule mod_add_right_eq)
  finally show ?case by simp
qed

lemma run_table_facts:
  "table_inv (run_table fp)"
  "sum_counts (run_table fp) = run_seen fp"
  "size_tbl (run_table fp) = card (set (map cstr (emitted fp)))"
  "get_count (run_table fp) v = of_nat (count_list (map cstr (emitted fp)) (cstr v))"
proof -
  have i: "table_inv (table_init INITIAL_BUCKETS)"
    by (simp add: table_inv_init INITIAL_BUCKETS_def)
  show "table_inv (run_table fp)"
    unfolding run_eq using i by (rule table_inv_foldl)
  show "sum_counts (run_table fp) = run_seen fp"
    unfolding run_eq sum_counts_foldl [OF i] by simp
  show "size_tbl (run_table fp) = card (set (map cstr (emitted fp)))"
    unfolding run_eq by (rule size_tbl_from_init) (simp add: INITIAL_BUCKETS_def)
  show "get_count (run_table fp) v = of_nat (count_list (map cstr (emitted fp)) (cstr v))"
    unfolding run_eq get_count_foldl [OF i] by (simp add: INITIAL_BUCKETS_def)
qed

lemma scenario1_values: "scan_values scenario1 = (True, [''RDV2'', ''ABC'', ''RDV2''])"
  by code_simp

lemma count_list_replicate_same: "count_list (replicate n x) x = n"
  by (induction n) simp_all

lemma get_count_from_init:
  "get_count (foldl table_inc (table_init INITIAL_BUCKETS) ks) v
     = of_nat (count_list (map cstr ks) (cstr v))"
proof -
  have i: "table_inv (table_init INITIAL_BUCKETS)"
    by (simp add: table_inv_init INITIAL_BUCKETS_def)
  show ?thesis
    unfolding get_count_foldl [OF i] by (simp add: INITIAL_BUCKETS_def)
qed

lemma size_tbl_from_initial:
  "size_tbl (foldl table_inc (table_init INITIAL_BUCKETS) ks) = card (set (map cstr ks))"
  by (rule size_tbl_from_init) (simp add: INITIAL_BUCKETS_def)

lemma get_count_replicate:
  "get_count (foldl table_inc (table_init INITIAL_BUCKETS) (replicate N v)) v = of_nat N"
  unfolding get_count_from_init by (simp only: map_replicate count_list_replicate_same)

section \<open>The scanner: values that are skipped\<close>













section \<open>The claims\<close>




text \<open>
  Claim C2, as the specification states it: after any increment, starting from a fresh
  table, \<open>size * 4 < bucket_count * 3\<close>. This fails. \<^verbatim>\<open>table_inc\<close> compares the size
  \<^emph>\<open>before\<close> the insertion with the threshold, so the 3072nd distinct value enters a
  table of 4096 buckets without growth and leaves \<open>size * 4 = bucket_count * 3\<close>.
\<close>

theorem load_factor_strict_counterexample:
  "\<not> (size_tbl (foldl table_inc (table_init INITIAL_BUCKETS) (a_keys 3072)) * 4
        < bucket_count (foldl table_inc (table_init INITIAL_BUCKETS) (a_keys 3072)) * 3)"
  by (simp add: full_load)

text \<open>
  Claim C2, amended: for every sequence of increments \<open>ks\<close> from a fresh table and every
  further increment \<open>k\<close>, right after that increment \<open>size * 4 \<le> bucket_count * 3\<close>:
  the load factor never exceeds 0.75, and it can reach it.
\<close>

theorem load_factor_after_increment:
  "size_tbl (table_inc (foldl table_inc (table_init INITIAL_BUCKETS) ks) k) * 4
     \<le> bucket_count (table_inc (foldl table_inc (table_init INITIAL_BUCKETS) ks) k) * 3"
  using load_ok_inc [OF load_ok_foldl [OF load_ok_init], of ks k]
  by (simp add: load_ok_def)

theorem load_factor_after_increment_witness:
  "size_tbl (table_inc (foldl table_inc (table_init INITIAL_BUCKETS) (a_keys 3071))
       (replicate 3071 (CHR ''a''))) * 4
     \<le> bucket_count (table_inc (foldl table_inc (table_init INITIAL_BUCKETS) (a_keys 3071))
       (replicate 3071 (CHR ''a''))) * 3"
  by (rule load_factor_after_increment)



text \<open>
  Claim C4, as the specification states it: \<open>N\<close> increments of the same value leave the
  stored count exactly \<open>N\<close>, for every natural number \<open>N \<ge> 1\<close>. The count is a
  \<^verbatim>\<open>uint64_t\<close> and \<^verbatim>\<open>e->count++\<close> wraps: after \<open>2 ^ 64\<close> increments the stored count is 0.
\<close>

theorem count_wraps_counterexample:
  "unat (get_count (foldl table_inc (table_init INITIAL_BUCKETS) (replicate (2 ^ 64) ''RDV2''))
           ''RDV2'') \<noteq> 2 ^ 64"
proof -
  have "unat (of_nat (2 ^ 64) :: 64 word) = 0"
    by (simp only: unat_of_nat) simp
  then show ?thesis
    by (simp only: get_count_replicate) simp
qed

text \<open>
  Claim C4, amended. After \<open>N\<close> increments of \<open>v\<close> on a fresh table the stored count of \<open>v\<close>
  is \<open>N mod 2 ^ 64\<close>, hence exactly \<open>N\<close> when \<open>N < 2 ^ 64\<close>. More generally, after any
  sequence \<open>ks\<close> of increments the count of \<open>v\<close> is the number of occurrences of \<open>v\<close> in
  \<open>ks\<close> (modulo \<open>2 ^ 64\<close>; values are compared as C strings), and \<^verbatim>\<open>size\<close> is the number of
  distinct values in \<open>ks\<close>; on any valid table the increments of \<open>ks\<close> add their
  occurrences of \<open>v\<close> to the count of \<open>v\<close>; and incrementing a value \<open>w\<close> different from
  \<open>v\<close> leaves the count and the entry of \<open>v\<close> as they are, while \<open>w\<close> has an entry of its
  own.
\<close>

theorem increments_counted:
  "unat (get_count (foldl table_inc (table_init INITIAL_BUCKETS) (replicate N v)) v) = N mod 2 ^ 64
   \<and> (N < 2 ^ 64 \<longrightarrow>
        unat (get_count (foldl table_inc (table_init INITIAL_BUCKETS) (replicate N v)) v) = N)
   \<and> unat (get_count (foldl table_inc (table_init INITIAL_BUCKETS) ks) v)
        = count_list (map cstr ks) (cstr v) mod 2 ^ 64
   \<and> size_tbl (foldl table_inc (table_init INITIAL_BUCKETS) ks) = card (set (map cstr ks))
   \<and> (table_inv t \<longrightarrow>
        get_count (foldl table_inc t ks) v
          = get_count t v + of_nat (count_list (map cstr ks) (cstr v)))
   \<and> (table_inv t \<and> cstr w \<noteq> cstr v \<longrightarrow>
        get_count (table_inc t w) v = get_count t v
        \<and> lookup (table_inc t w) (cstr v) = lookup t (cstr v)
        \<and> lookup (table_inc t w) (cstr w) \<noteq> None)"
proof -
  have a: "unat (get_count (foldl table_inc (table_init INITIAL_BUCKETS) (replicate N v)) v)
      = N mod 2 ^ 64"
    by (simp only: get_count_replicate unat_of_nat) simp
  have b: "unat (get_count (foldl table_inc (table_init INITIAL_BUCKETS) ks) v)
        = count_list (map cstr ks) (cstr v) mod 2 ^ 64"
    by (simp only: get_count_from_init unat_of_nat) simp
  have c: "size_tbl (foldl table_inc (table_init INITIAL_BUCKETS) ks) = card (set (map cstr ks))"
    by (rule size_tbl_from_initial)
  have d: "get_count (table_inc t w) v = get_count t v
        \<and> lookup (table_inc t w) (cstr v) = lookup t (cstr v)
        \<and> lookup (table_inc t w) (cstr w) \<noteq> None"
    if "table_inv t" "cstr w \<noteq> cstr v"
    using that(2) by (simp add: get_count_inc [OF that(1)] table_inc_correct(2) [OF that(1)])
  show ?thesis
    using a b c d get_count_foldl [of t ks v] by simp
qed

text \<open>
  Claim C4, at the values \<^verbatim>\<open>RDV2\<close> and \<^verbatim>\<open>ABC\<close>: three increments of \<^verbatim>\<open>RDV2\<close> give the count
  3, and an increment of \<^verbatim>\<open>ABC\<close> on the fresh table leaves the count of \<^verbatim>\<open>RDV2\<close> at 0.
\<close>

theorem increments_counted_witness:
  "table_inv (table_init INITIAL_BUCKETS) \<and> cstr ''ABC'' \<noteq> cstr ''RDV2''
   \<and> (3::nat) < 2 ^ 64
   \<and> unat (get_count (foldl table_inc (table_init INITIAL_BUCKETS) (replicate 3 ''RDV2'')) ''RDV2'') = 3
   \<and> get_count (table_inc (table_init INITIAL_BUCKETS) ''ABC'') ''RDV2'' = 0"
proof -
  have i: "table_inv (table_init INITIAL_BUCKETS)"
    by (simp add: table_inv_init INITIAL_BUCKETS_def)
  have n: "cstr ''ABC'' \<noteq> cstr ''RDV2''"
    by (simp add: cstr_def)
  have l: "(3::nat) < 2 ^ 64"
    by simp
  note r = increments_counted [of 3 "''RDV2''" "[]" "table_init INITIAL_BUCKETS" "''ABC''"]
  from r l have "unat (get_count (foldl table_inc (table_init INITIAL_BUCKETS) (replicate 3 ''RDV2'')) ''RDV2'') = 3"
    by blast
  moreover from r i n have "get_count (table_inc (table_init INITIAL_BUCKETS) ''ABC'') ''RDV2''
      = get_count (table_init INITIAL_BUCKETS) ''RDV2''"
    by blast
  ultimately show ?thesis
    using i n by (simp add: INITIAL_BUCKETS_def)
qed

text \<open>
  Claim C5: \<^verbatim>\<open>table_rehash\<close> on a table with at least one bucket, whose array has
  \<^verbatim>\<open>bucket_count\<close> slots, keeps the multiset of (key, count) pairs and fills an array of
  twice the capacity; it never changes \<^verbatim>\<open>size\<close> and doubles \<^verbatim>\<open>bucket_count\<close>; and on a valid
  table the result is valid again, maps every key to the count it had, and \<^verbatim>\<open>get_count\<close>
  finds for every \<open>k\<close> what it found before. (The nodes are moved, not copied: \<open>relink\<close>
  pushes the entry itself on its new chain.)
\<close>

theorem rehash_preserves_entries:
  "(0 < bucket_count t \<and> length (buckets t) = bucket_count t \<longrightarrow>
      mset (map kv (entries (table_rehash t))) = mset (map kv (entries t))
      \<and> length (buckets (table_rehash t)) = 2 * bucket_count t)
   \<and> size_tbl (table_rehash t) = size_tbl t
   \<and> bucket_count (table_rehash t) = 2 * bucket_count t
   \<and> (table_inv t \<longrightarrow>
        table_inv (table_rehash t)
        \<and> lookup (table_rehash t) = lookup t
        \<and> get_count (table_rehash t) k = get_count t k)"
proof -
  have a: "mset (map kv (entries (table_rehash t))) = mset (map kv (entries t))
      \<and> length (buckets (table_rehash t)) = 2 * bucket_count t"
    if "0 < bucket_count t" "length (buckets t) = bucket_count t"
    using table_rehash_entries [OF that] by (simp add: buckets_ok_def)
  have b: "table_inv (table_rehash t) \<and> lookup (table_rehash t) = lookup t
        \<and> get_count (table_rehash t) k = get_count t k"
    if "table_inv t"
    using table_inv_rehash [OF that] lookup_rehash [OF that]
    by (simp add: get_count_lookup [OF that] get_count_lookup [OF table_inv_rehash [OF that]])
  show ?thesis
    using a b by simp
qed

text \<open>
  Claim C5, at the table built from the values \<^verbatim>\<open>RDV2\<close>, \<^verbatim>\<open>ABC\<close>, \<^verbatim>\<open>RDV2\<close>: after
  \<^verbatim>\<open>table_rehash\<close> the count of \<^verbatim>\<open>RDV2\<close> is still 2, \<^verbatim>\<open>size\<close> is still 2 and there are
  8192 buckets.
\<close>

theorem rehash_preserves_entries_witness:
  "table_inv (foldl table_inc (table_init INITIAL_BUCKETS) [''RDV2'', ''ABC'', ''RDV2''])
   \<and> 0 < bucket_count (foldl table_inc (table_init INITIAL_BUCKETS) [''RDV2'', ''ABC'', ''RDV2''])
   \<and> length (buckets (foldl table_inc (table_init INITIAL_BUCKETS) [''RDV2'', ''ABC'', ''RDV2'']))
       = bucket_count (foldl table_inc (table_init INITIAL_BUCKETS) [''RDV2'', ''ABC'', ''RDV2''])
   \<and> get_count (table_rehash (foldl table_inc (table_init INITIAL_BUCKETS) [''RDV2'', ''ABC'', ''RDV2'']))
        ''RDV2'' = 2
   \<and> size_tbl (table_rehash (foldl table_inc (table_init INITIAL_BUCKETS) [''RDV2'', ''ABC'', ''RDV2''])) = 2
   \<and> bucket_count (table_rehash (foldl table_inc (table_init INITIAL_BUCKETS) [''RDV2'', ''ABC'', ''RDV2''])) = 8192"
proof -
  define t where "t = foldl table_inc (table_init INITIAL_BUCKETS) [''RDV2'', ''ABC'', ''RDV2'']"
  have i: "table_inv t"
    unfolding t_def by (rule table_inv_foldl) (simp add: table_inv_init INITIAL_BUCKETS_def)
  then have s: "0 < bucket_count t" "length (buckets t) = bucket_count t"
    by (simp_all add: table_inv_def buckets_ok_def)
  have g: "get_count t ''RDV2'' = 2"
    unfolding t_def get_count_from_init by (simp add: cstr_def)
  have "set (map cstr [''RDV2'', ''ABC'', ''RDV2'']) = set [''RDV2'', ''ABC'']"
    by (auto simp: cstr_def)
  moreover have "card (set [''RDV2'', ''ABC'']) = 2"
    by simp
  ultimately have "card (set (map cstr [''RDV2'', ''ABC'', ''RDV2''])) = 2"
    by (simp only:)
  then have z: "size_tbl t = 2"
    unfolding t_def size_tbl_from_initial .
  have bc: "bucket_count t = 4096"
    unfolding t_def by (rule no_growth) (simp_all add: table_init_def INITIAL_BUCKETS_def)
  note r = rehash_preserves_entries [of t "''RDV2''"]
  from r i have "get_count (table_rehash t) ''RDV2'' = get_count t ''RDV2''"
    by blast
  moreover from r have "size_tbl (table_rehash t) = size_tbl t"
    "bucket_count (table_rehash t) = 2 * bucket_count t"
    by blast+
  ultimately show ?thesis
    using i s g z bc unfolding t_def [symmetric] by simp
qed




text \<open>
  Claim C7, for the decoding loop of \<^verbatim>\<open>read_json_string\<close> in any state (\<open>buf\<close> the bytes
  decoded so far): \<^verbatim>\<open>\u\<close> followed by four hexadecimal digits appends the single byte
  \<^verbatim>\<open>?\<close> and goes on behind the digits; \<^verbatim>\<open>\u\<close> followed by anything else makes the
  decoding return \<^verbatim>\<open>NULL\<close>, and the scan that was reading this literal, as a candidate
  key or as the value after a key's colon, fails; the eight escapes \<^verbatim>\<open>\" \\ \/ \b \f \n \r \t\<close> append the byte they stand for; and
  any other \<^verbatim>\<open>\X\<close> appends \<open>X\<close> itself. (The container branch of
  \<^verbatim>\<open>consume_json_value\<close> decodes nothing and does not look at the digits.)
\<close>

theorem escape_decoding:
  "(4 \<le> length fp \<and> list_all isxdigit (take 4 fp)
      \<longrightarrow> read_json_string_loop buf (CHR 0x5C # CHR ''u'' # fp)
            = read_json_string_loop (buf @ [CHR ''?'']) (drop 4 fp))
   \<and> (\<not> (4 \<le> length fp \<and> list_all isxdigit (take 4 fp))
      \<longrightarrow> fst (read_json_string_loop buf (CHR 0x5C # CHR ''u'' # fp)) = None
          \<and> (plain pre \<longrightarrow> \<not> fst (process_file (CHR 0x22 # pre @ CHR 0x5C # CHR ''u'' # fp) t ms))
          \<and> (plain pre \<and> read_json_string fp0 = (Some k, fp_k)
               \<and> skip_ws fp_k = (Some (CHR '':''), fp_c)
               \<and> skip_ws fp_c = (Some (CHR 0x22), pre @ CHR 0x5C # CHR ''u'' # fp)
               \<longrightarrow> \<not> fst (process_file (CHR 0x22 # fp0) t ms)))
   \<and> read_json_string_loop buf (CHR 0x5C # CHR 0x22 # fp) = read_json_string_loop (buf @ [CHR 0x22]) fp
   \<and> read_json_string_loop buf (CHR 0x5C # CHR 0x5C # fp) = read_json_string_loop (buf @ [CHR 0x5C]) fp
   \<and> read_json_string_loop buf (CHR 0x5C # CHR ''/'' # fp) = read_json_string_loop (buf @ [CHR ''/'']) fp
   \<and> read_json_string_loop buf (CHR 0x5C # CHR ''b'' # fp) = read_json_string_loop (buf @ [CHR 0x08]) fp
   \<and> read_json_string_loop buf (CHR 0x5C # CHR ''f'' # fp) = read_json_string_loop (buf @ [CHR 0x0C]) fp
   \<and> read_json_string_loop buf (CHR 0x5C # CHR ''n'' # fp) = read_json_string_loop (buf @ [CHR 0x0A]) fp
   \<and> read_json_string_loop buf (CHR 0x5C # CHR ''r'' # fp) = read_json_string_loop (buf @ [CHR 0x0D]) fp
   \<and> read_json_string_loop buf (CHR 0x5C # CHR ''t'' # fp) = read_json_string_loop (buf @ [CHR 0x09]) fp
   \<and> (X \<notin> {CHR ''u'', CHR 0x22, CHR 0x5C, CHR ''/'', CHR ''b'', CHR ''f'', CHR ''n'', CHR ''r'', CHR ''t''}
      \<longrightarrow> read_json_string_loop buf (CHR 0x5C # X # fp) = read_json_string_loop (buf @ [X]) fp)"
proof -
  have a: "4 \<le> length fp \<and> list_all isxdigit (take 4 fp)
      \<longrightarrow> read_json_string_loop buf (CHR 0x5C # CHR ''u'' # fp)
            = read_json_string_loop (buf @ [CHR ''?'']) (drop 4 fp)"
    using escape_u_ok [of fp buf] by blast
  have b: "\<not> (4 \<le> length fp \<and> list_all isxdigit (take 4 fp))
      \<longrightarrow> fst (read_json_string_loop buf (CHR 0x5C # CHR ''u'' # fp)) = None
          \<and> (plain pre \<longrightarrow> \<not> fst (process_file (CHR 0x22 # pre @ CHR 0x5C # CHR ''u'' # fp) t ms))
          \<and> (plain pre \<and> read_json_string fp0 = (Some k, fp_k)
               \<and> skip_ws fp_k = (Some (CHR '':''), fp_c)
               \<and> skip_ws fp_c = (Some (CHR 0x22), pre @ CHR 0x5C # CHR ''u'' # fp)
               \<longrightarrow> \<not> fst (process_file (CHR 0x22 # fp0) t ms))"
    using escape_u_bad [of fp buf] escape_bad_scan [of pre fp t ms]
      escape_bad_scan_value [of pre fp fp0 k fp_k fp_c t ms] by blast
  have c: "X \<notin> {CHR ''u'', CHR 0x22, CHR 0x5C, CHR ''/'', CHR ''b'', CHR ''f'', CHR ''n'', CHR ''r'', CHR ''t''}
      \<longrightarrow> read_json_string_loop buf (CHR 0x5C # X # fp) = read_json_string_loop (buf @ [X]) fp"
    by (simp add: unescape_def)
  have d: "read_json_string_loop buf (CHR 0x5C # CHR 0x22 # fp) = read_json_string_loop (buf @ [CHR 0x22]) fp"
    "read_json_string_loop buf (CHR 0x5C # CHR 0x5C # fp) = read_json_string_loop (buf @ [CHR 0x5C]) fp"
    "read_json_string_loop buf (CHR 0x5C # CHR ''/'' # fp) = read_json_string_loop (buf @ [CHR ''/'']) fp"
    "read_json_string_loop buf (CHR 0x5C # CHR ''b'' # fp) = read_json_string_loop (buf @ [CHR 0x08]) fp"
    "read_json_string_loop buf (CHR 0x5C # CHR ''f'' # fp) = read_json_string_loop (buf @ [CHR 0x0C]) fp"
    "read_json_string_loop buf (CHR 0x5C # CHR ''n'' # fp) = read_json_string_loop (buf @ [CHR 0x0A]) fp"
    "read_json_string_loop buf (CHR 0x5C # CHR ''r'' # fp) = read_json_string_loop (buf @ [CHR 0x0D]) fp"
    "read_json_string_loop buf (CHR 0x5C # CHR ''t'' # fp) = read_json_string_loop (buf @ [CHR 0x09]) fp"
    by (simp_all add: unescape_def)
  show ?thesis
    using a b c d by blast
qed

text \<open>
  Claim C7, at concrete literals: \<^verbatim>\<open>a\u00e9b\<close> decodes to \<^verbatim>\<open>a?b\<close>, the key \<^verbatim>\<open>a\u00zz\<close>
  and the value \<^verbatim>\<open>a\u00zz\<close> of the key \<^verbatim>\<open>model\<close> make the scan fail, \<^verbatim>\<open>\q\<close> decodes to \<^verbatim>\<open>q\<close> and \<^verbatim>\<open>\n\<close> to a line feed.
\<close>

theorem escape_decoding_witness:
  \<open>4 \<le> length ''00e9b"c'' \<and> list_all isxdigit (take 4 ''00e9b"c'')
   \<and> read_json_string (''a'' @ CHR 0x5C # ''u00e9b"c'') = (Some ''a?b'', ''c'')
   \<and> \<not> (4 \<le> length ''00zz":1'' \<and> list_all isxdigit (take 4 ''00zz":1''))
   \<and> plain ''a''
   \<and> \<not> fst (process_file (CHR 0x22 # ''a'' @ CHR 0x5C # CHR ''u'' # ''00zz":1'')
              (table_init INITIAL_BUCKETS) 0)
   \<and> CHR ''q'' \<notin> {CHR ''u'', CHR 0x22, CHR 0x5C, CHR ''/'', CHR ''b'', CHR ''f'', CHR ''n'',
        CHR ''r'', CHR ''t''}
   \<and> read_json_string (CHR 0x5C # ''q"'') = (Some ''q'', [])
   \<and> read_json_string (CHR 0x5C # ''n"'') = (Some [CHR 0x0A], [])
   \<and> read_json_string (''model":"'' @ ''a'' @ CHR 0x5C # CHR ''u'' # ''00zz":1'')
        = (Some ''model'', '':"'' @ ''a'' @ CHR 0x5C # CHR ''u'' # ''00zz":1'')
   \<and> skip_ws ('':"'' @ ''a'' @ CHR 0x5C # CHR ''u'' # ''00zz":1'')
        = (Some (CHR '':''), CHR 0x22 # ''a'' @ CHR 0x5C # CHR ''u'' # ''00zz":1'')
   \<and> skip_ws (CHR 0x22 # ''a'' @ CHR 0x5C # CHR ''u'' # ''00zz":1'')
        = (Some (CHR 0x22), ''a'' @ CHR 0x5C # CHR ''u'' # ''00zz":1'')
   \<and> \<not> fst (process_file (CHR 0x22 # ''model":"'' @ ''a'' @ CHR 0x5C # CHR ''u'' # ''00zz":1'')
              (table_init INITIAL_BUCKETS) 0)\<close>
proof -
  have h: \<open>4 \<le> length ''00e9b"c'' \<and> list_all isxdigit (take 4 ''00e9b"c'')\<close>
    by (simp add: isxdigit_def)
  have n: \<open>\<not> (4 \<le> length ''00zz":1'' \<and> list_all isxdigit (take 4 ''00zz":1''))\<close>
    by (simp add: isxdigit_def)
  have p: \<open>plain ''a''\<close>
    by (simp add: plain_def)
  have q: \<open>CHR ''q'' \<notin> {CHR ''u'', CHR 0x22, CHR 0x5C, CHR ''/'', CHR ''b'', CHR ''f'', CHR ''n'',
        CHR ''r'', CHR ''t''}\<close>
    by simp
  note u_ok = escape_decoding [THEN conjunct1, rule_format]
  note u_bad = escape_decoding [THEN conjunct2, THEN conjunct1, rule_format, THEN conjunct2,
      THEN conjunct1, rule_format]
  note u_bad_value = escape_decoding [where fp = \<open>''00zz":1''\<close> and pre = "''a''"
      and ?fp0.0 = \<open>''model":"'' @ ''a'' @ CHR 0x5C # CHR ''u'' # ''00zz":1''\<close>
      and k = "''model''"
      and fp_k = \<open>'':"'' @ ''a'' @ CHR 0x5C # CHR ''u'' # ''00zz":1''\<close>
      and fp_c = \<open>CHR 0x22 # ''a'' @ CHR 0x5C # CHR ''u'' # ''00zz":1''\<close>,
      THEN conjunct2, THEN conjunct1, rule_format, THEN conjunct2, THEN conjunct2, rule_format]
  note esc_n = escape_decoding [THEN conjunct2, THEN conjunct2, THEN conjunct2, THEN conjunct2,
      THEN conjunct2, THEN conjunct2, THEN conjunct2, THEN conjunct1]
  note esc_x = escape_decoding [THEN conjunct2, THEN conjunct2, THEN conjunct2, THEN conjunct2,
      THEN conjunct2, THEN conjunct2, THEN conjunct2, THEN conjunct2, THEN conjunct2,
      THEN conjunct2, rule_format]
  have \<open>read_json_string_loop ''a'' (CHR 0x5C # CHR ''u'' # ''00e9b"c'')
      = read_json_string_loop (''a'' @ [CHR ''?'']) (drop 4 ''00e9b"c'')\<close>
    using h by (rule u_ok)
  then have 1: \<open>read_json_string (''a'' @ CHR 0x5C # ''u00e9b"c'') = (Some ''a?b'', ''c'')\<close>
    by (simp add: read_json_string_def)
  have 2: \<open>\<not> fst (process_file (CHR 0x22 # ''a'' @ CHR 0x5C # CHR ''u'' # ''00zz":1'')
              (table_init INITIAL_BUCKETS) 0)\<close>
    using n p by (rule u_bad)
  have v: \<open>read_json_string (''model":"'' @ ''a'' @ CHR 0x5C # CHR ''u'' # ''00zz":1'')
        = (Some ''model'', '':"'' @ ''a'' @ CHR 0x5C # CHR ''u'' # ''00zz":1'')\<close>
    \<open>skip_ws ('':"'' @ ''a'' @ CHR 0x5C # CHR ''u'' # ''00zz":1'')
        = (Some (CHR '':''), CHR 0x22 # ''a'' @ CHR 0x5C # CHR ''u'' # ''00zz":1'')\<close>
    \<open>skip_ws (CHR 0x22 # ''a'' @ CHR 0x5C # CHR ''u'' # ''00zz":1'')
        = (Some (CHR 0x22), ''a'' @ CHR 0x5C # CHR ''u'' # ''00zz":1'')\<close>
    by (simp_all add: read_json_string_def isspace_def)
  have 5: \<open>\<not> fst (process_file (CHR 0x22 # ''model":"'' @ ''a'' @ CHR 0x5C # CHR ''u'' # ''00zz":1'')
              (table_init INITIAL_BUCKETS) 0)\<close>
    using n by (rule u_bad_value) (intro conjI p v)
  have \<open>read_json_string_loop [] (CHR 0x5C # CHR ''q'' # [CHR 0x22])
      = read_json_string_loop ([] @ [CHR ''q'']) [CHR 0x22]\<close>
    using q by (rule esc_x)
  then have 3: \<open>read_json_string (CHR 0x5C # ''q"'') = (Some ''q'', [])\<close>
    by (simp add: read_json_string_def)
  have \<open>read_json_string_loop [] (CHR 0x5C # CHR ''n'' # [CHR 0x22])
      = read_json_string_loop ([] @ [CHR 0x0A]) [CHR 0x22]\<close>
    by (rule esc_n)
  then have 4: \<open>read_json_string (CHR 0x5C # ''n"'') = (Some [CHR 0x0A], [])\<close>
    by (simp add: read_json_string_def)
  show ?thesis
    by (intro conjI h [THEN conjunct1] h [THEN conjunct2] n p q 1 2 3 4 v 5)
qed

text \<open>
  Claim C8: when, after a candidate key and its colon, the rest of the stream \<open>ws\<close> is
  whitespace only (possibly empty), \<^verbatim>\<open>process_file\<close> returns 1 with the table and the
  counter as they were when the key's opening quote was read.
\<close>

theorem eof_after_colon_succeeds:
  assumes "read_json_string fp = (Some k, fp_k)" "skip_ws fp_k = (Some (CHR '':''), ws)"
    "list_all isspace ws"
  shows "process_file (CHR 0x22 # fp) table models_seen = (True, table, models_seen)"
proof -
  have "skip_ws ws = (None, [])"
    using assms(3) by (simp add: skip_ws_None)
  then show ?thesis
    using assms(1,2) by (simp only: process_file_quote) simp
qed

text \<open>
  Claim C8, at the input \<^verbatim>\<open>"model":\<close> followed by two blanks.
\<close>

theorem eof_after_colon_succeeds_witness:
  \<open>read_json_string ''model":  '' = (Some ''model'', '':  '')
   \<and> skip_ws '':  '' = (Some (CHR '':''), ''  '')
   \<and> list_all isspace ''  ''
   \<and> process_file (CHR 0x22 # ''model":  '') (table_init INITIAL_BUCKETS) 7
       = (True, table_init INITIAL_BUCKETS, 7)\<close>
proof -
  have a: \<open>read_json_string ''model":  '' = (Some ''model'', '':  '')\<close>
    by (simp add: read_json_string_def)
  have b: \<open>skip_ws '':  '' = (Some (CHR '':''), ''  '')\<close>
    by (simp add: isspace_def)
  have c: \<open>list_all isspace ''  ''\<close>
    by (simp add: isspace_def)
  show ?thesis
    using a b c eof_after_colon_succeeds [OF a b c, of "table_init INITIAL_BUCKETS" 7] by simp
qed

text \<open>
  Claim C9: for a first byte that is neither a double quote nor \<^verbatim>\<open>{\<close> nor \<^verbatim>\<open>[\<close>,
  \<^verbatim>\<open>consume_json_value\<close> returns 1 whatever follows. If the first byte is itself a
  delimiter nothing more is read (and \<^verbatim>\<open>,\<close>, \<^verbatim>\<open>}\<close> or \<^verbatim>\<open>]\<close> is pushed back);
  otherwise the bytes before the first delimiter of the stream are consumed, the
  delimiter is consumed too when it is whitespace and left in the stream when it is
  \<^verbatim>\<open>,\<close>, \<^verbatim>\<open>}\<close> or \<^verbatim>\<open>]\<close>, and a stream without delimiter is consumed to its end.
\<close>

theorem scalar_skip_never_fails:
  assumes "first \<noteq> CHR 0x22" "first \<noteq> CHR ''{''" "first \<noteq> CHR ''[''"
  shows "consume_json_value fp first =
     (True,
      if is_delim first then (if isspace first then fp else first # fp)
      else (case dropWhile (\<lambda>c. \<not> is_delim c) fp of
              [] \<Rightarrow> []
            | d # r \<Rightarrow> if isspace d then r else d # r))"
proof (cases "is_delim first")
  case True
  then show ?thesis
    using assms by (auto simp: consume_json_value_def scalar_loop_eq is_delim_def isspace_def)
next
  case False
  have d: "is_delim d \<Longrightarrow> \<not> isspace d \<Longrightarrow> d = CHR '','' \<or> d = CHR ''}'' \<or> d = CHR '']''" for d
    by (auto simp: is_delim_def)
  have e: "isspace d \<Longrightarrow> \<not> (d = CHR '','' \<or> d = CHR ''}'' \<or> d = CHR '']'')" for d
    by (auto simp: isspace_def)
  show ?thesis
  proof (cases "dropWhile (\<lambda>c. \<not> is_delim c) fp")
    case Nil
    from False assms show ?thesis
      by (simp add: consume_json_value_def scalar_loop_eq Nil)
  next
    case (Cons d r)
    then have "is_delim d"
      by (metis (mono_tags, lifting) hd_dropWhile list.sel(1) list.distinct(1))
    with False assms d [of d] e [of d] show ?thesis
      by (auto simp: consume_json_value_def scalar_loop_eq Cons)
  qed
qed

text \<open>
  Claim C9, at the value \<^verbatim>\<open>123\<close> followed by a comma: the comma stays in the stream.
\<close>

theorem scalar_skip_never_fails_witness:
  \<open>consume_json_value ''23,"x"'' (CHR ''1'') = (True, '',"x"'')\<close>
  using scalar_skip_never_fails [of "CHR ''1''" \<open>''23,"x"''\<close>]
  by (simp add: is_delim_def isspace_def)

text \<open>
  Claim C10: after a successful run on a fresh table with the counter at 0, the counts
  stored in the table add up to the values-seen counter (as 64-bit sums, and as the sum
  of the counts taken modulo \<open>2 ^ 64\<close>), \<^verbatim>\<open>size\<close> is the number of distinct values emitted
  (as C strings), the table is the fresh table after one \<^verbatim>\<open>table_inc\<close> per emitted value,
  in order, and the counter is the number of emitted values.
\<close>

theorem counts_sum_to_values_seen:
  assumes "run_ok fp"
  shows "sum_counts (run_table fp) = run_seen fp
    \<and> sum_list (map (\<lambda>e. unat (count_e e)) (entries (run_table fp))) mod 2 ^ 64 = unat (run_seen fp)
    \<and> size_tbl (run_table fp) = card (set (map cstr (emitted fp)))
    \<and> run_table fp = foldl table_inc (table_init INITIAL_BUCKETS) (emitted fp)
    \<and> run_seen fp = of_nat (length (emitted fp))"
proof -
  have "unat (sum_counts (run_table fp))
      = sum_list (map (\<lambda>e. unat (count_e e)) (entries (run_table fp))) mod 2 ^ 64"
    unfolding sum_counts_def by (rule unat_sum_list)
  then show ?thesis
    using run_table_facts(2,3) [of fp] run_eq(2,3) [of fp] by simp
qed

text \<open>
  Claim C10, at the first scenario: three values emitted, two of them distinct.
\<close>

theorem counts_sum_to_values_seen_witness:
  "run_ok scenario1
   \<and> sum_counts (run_table scenario1) = 3
   \<and> run_seen scenario1 = 3
   \<and> size_tbl (run_table scenario1) = 2
   \<and> emitted scenario1 = [''RDV2'', ''ABC'', ''RDV2'']"
proof -
  have ok: "run_ok scenario1"
    by (simp add: run_eq scenario1_values)
  have e: "emitted scenario1 = [''RDV2'', ''ABC'', ''RDV2'']"
    by (simp add: emitted_def scenario1_values)
  have "set (map cstr [''RDV2'', ''ABC'', ''RDV2'']) = set [''RDV2'', ''ABC'']"
    by (auto simp: cstr_def)
  moreover have "card (set [''RDV2'', ''ABC'']) = 2"
    by simp
  ultimately have c: "card (set (map cstr [''RDV2'', ''ABC'', ''RDV2''])) = 2"
    by (simp only:)
  from counts_sum_to_values_seen [OF ok]
  have r: "sum_counts (run_table scenario1) = run_seen scenario1"
    "size_tbl (run_table scenario1) = card (set (map cstr (emitted scenario1)))"
    "run_seen scenario1 = of_nat (length (emitted scenario1))"
    by blast+
  have "run_seen scenario1 = 3"
    unfolding r(3) e by simp
  moreover have "size_tbl (run_table scenario1) = 2"
    unfolding r(2) e by (rule c)
  ultimately show ?thesis
    using ok e r(1) by simp
qed

end
